theory Spec2Isabelle
  imports Complex_Main "HOL-Library.AList" "HOL-Library.Word"
begin

section \<open>Data model\<close>

text \<open>
  Source files: \<^verbatim>\<open>neurolight/gunpowder/swc_source.py\<close> and
  \<^verbatim>\<open>neurolight/gunpowder/rasterize_skeleton.py\<close>.

  Coordinates are numpy \<^verbatim>\<open>float64\<close> values in the source. They are modelled by exact
  rationals; the only places where IEEE special values arise (division by a zero
  direction component in \<^verbatim>\<open>_resample_relative\<close>) are modelled explicitly by the type
  \<open>npfloat\<close> below. Python integers are \<open>int\<close>.

  A row of \<^verbatim>\<open>self.data\<close> is \<^verbatim>\<open>[x, y, z, point_id, parent_id, label_id]\<close>, and
  \<^verbatim>\<open>SwcPoint\<close> carries the same four pieces of information, so both use one record.
\<close>

record SwcPoint =
  location :: "rat list"
  point_id :: int
  parent_id :: int
  label_id :: int

type_synonym row = SwcPoint

text \<open>The exceptions the two files can raise.\<close>

datatype error =
    LoopDetected          \<comment> \<open>\<^verbatim>\<open>RuntimeError("Loop detected in skeleton")\<close>\<close>
  | KeyError int          \<comment> \<open>a dictionary lookup with a missing key\<close>
  | IndexError            \<comment> \<open>an array index out of range\<close>
  | ResampleFailed        \<comment> \<open>the failing \<^verbatim>\<open>assert\<close> of \<^verbatim>\<open>_resample_relative\<close>\<close>
  | AssertionError        \<comment> \<open>a failing \<^verbatim>\<open>assert\<close> of \<^verbatim>\<open>process\<close>\<close>

definition ndims :: nat where
  "ndims = 3"

section \<open>SwcSource: indexing and labeling\<close>

text \<open>
  The derived indices of \<^verbatim>\<open>_label_skeletons\<close>: \<^verbatim>\<open>child_to_parent\<close> and
  \<^verbatim>\<open>parent_to_children\<close> are dictionaries, \<^verbatim>\<open>sources\<close> is a list.
\<close>

record graph_index =
  child_to_parent :: "int \<rightharpoonup> int"
  parent_to_children :: "int \<rightharpoonup> int list"
  sources :: "int list"

definition empty_index :: graph_index where
  "empty_index = \<lparr>child_to_parent = Map.empty, parent_to_children = Map.empty, sources = []\<rparr>"

text \<open>One iteration of the first loop of \<^verbatim>\<open>_label_skeletons\<close>.\<close>

definition index_row :: "graph_index \<Rightarrow> row \<Rightarrow> graph_index" where
  "index_row g p =
     (if point_id p = parent_id p then g\<lparr>sources := sources g @ [point_id p]\<rparr>
      else g\<lparr>child_to_parent := (child_to_parent g)(point_id p \<mapsto> parent_id p),
             parent_to_children :=
               (case parent_to_children g (parent_id p) of
                  Some cs \<Rightarrow> (parent_to_children g)(parent_id p \<mapsto> cs @ [point_id p])
                | None \<Rightarrow> (parent_to_children g)(parent_id p \<mapsto> [point_id p]))\<rparr>)"

definition build_index :: "row list \<Rightarrow> graph_index" where
  "build_index rows = foldl index_row empty_index rows"

text \<open>
  \<^verbatim>\<open>_label_skeleton\<close>: the \<^verbatim>\<open>while True\<close> loop together with the recursion into the
  children. The first argument is fuel: \<open>None\<close> means that the fuel ran out, \<open>Some (Inl e)\<close>
  that the exception \<open>e\<close> was raised, \<open>Some (Inr m)\<close> that the call returned with
  \<^verbatim>\<open>point_to_label\<close> equal to \<open>m\<close>.
\<close>

fun label_skeleton ::
    "nat \<Rightarrow> (int \<rightharpoonup> int list) \<Rightarrow> int \<Rightarrow> int \<Rightarrow> (int \<rightharpoonup> int) \<Rightarrow> (error + (int \<rightharpoonup> int)) option"
  and label_children ::
    "nat \<Rightarrow> (int \<rightharpoonup> int list) \<Rightarrow> int list \<Rightarrow> int \<Rightarrow> (int \<rightharpoonup> int) \<Rightarrow> (error + (int \<rightharpoonup> int)) option"
where
  "label_skeleton 0 ptc p l m = None"
| "label_skeleton (Suc n) ptc p l m =
     (if m p \<noteq> None then Some (Inl LoopDetected)
      else (case ptc p of
              None \<Rightarrow> Some (Inr (m(p \<mapsto> l)))
            | Some children \<Rightarrow>
                if length children = 1 then label_skeleton n ptc (hd children) l (m(p \<mapsto> l))
                else label_children n ptc children l (m(p \<mapsto> l))))"
| "label_children n ptc [] l m = Some (Inr m)"
| "label_children n ptc (c # cs) l m =
     (case label_skeleton n ptc c l m of
        Some (Inr m') \<Rightarrow> label_children n ptc cs l m'
      | r \<Rightarrow> r)"

text \<open>The loop over \<^verbatim>\<open>self.sources\<close> with the running \<^verbatim>\<open>label_id\<close>.\<close>

fun label_sources ::
    "nat \<Rightarrow> (int \<rightharpoonup> int list) \<Rightarrow> int list \<Rightarrow> int \<Rightarrow> (int \<rightharpoonup> int) \<Rightarrow> (error + (int \<rightharpoonup> int)) option"
where
  "label_sources n ptc [] l m = Some (Inr m)"
| "label_sources n ptc (s # ss) l m =
     (case label_skeleton n ptc s l m of
        Some (Inr m') \<Rightarrow> label_sources n ptc ss (l + 1) m'
      | r \<Rightarrow> r)"

text \<open>The last loop: \<^verbatim>\<open>point[5] = self.point_to_label[point_id]\<close>, a \<^verbatim>\<open>KeyError\<close> when absent.\<close>

fun write_labels :: "(int \<rightharpoonup> int) \<Rightarrow> row list \<Rightarrow> error + row list" where
  "write_labels m [] = Inr []"
| "write_labels m (p # ps) =
     (case m (point_id p) of
        None \<Rightarrow> Inl (KeyError (point_id p))
      | Some l \<Rightarrow>
          (case write_labels m ps of
             Inl e \<Rightarrow> Inl e
           | Inr ps' \<Rightarrow> Inr (p\<lparr>label_id := l\<rparr> # ps')))"

text \<open>The state of a \<^verbatim>\<open>SwcSource\<close> after \<^verbatim>\<open>_label_skeletons\<close>.\<close>

record swc_source =
  data :: "row list"
  index :: graph_index
  point_to_label :: "int \<rightharpoonup> int"

definition label_skeletons :: "nat \<Rightarrow> row list \<Rightarrow> (error + swc_source) option" where
  "label_skeletons n rows =
     (let g = build_index rows in
      case label_sources n (parent_to_children g) (sources g) 1 Map.empty of
        None \<Rightarrow> None
      | Some (Inl e) \<Rightarrow> Some (Inl e)
      | Some (Inr m) \<Rightarrow>
          (case write_labels m rows of
             Inl e \<Rightarrow> Some (Inl e)
           | Inr rows' \<Rightarrow> Some (Inr \<lparr>data = rows', index = g, point_to_label = m\<rparr>)))"

text \<open>
  \<^verbatim>\<open>_read_points\<close> builds the table from the file's records, each with \<^verbatim>\<open>label_id = 0\<close>,
  and calls \<^verbatim>\<open>_label_skeletons\<close>; there is no other check of the records.
\<close>

definition read_points :: "nat \<Rightarrow> (rat list \<times> int \<times> int) list \<Rightarrow> (error + swc_source) option" where
  "read_points n records =
     label_skeletons n
       (map (\<lambda>(xyz, pid, par). \<lparr>location = xyz, point_id = pid, parent_id = par, label_id = 0\<rparr>) records)"

section \<open>SwcSource: region query\<close>

text \<open>
  A region of interest of the surrounding library: an integer offset and an integer shape
  per axis, with \<^verbatim>\<open>get_begin\<close> the offset and \<^verbatim>\<open>get_end\<close> the offset plus the shape.
\<close>

record roi =
  roi_offset :: "int list"
  roi_shape :: "int list"

definition get_begin :: "roi \<Rightarrow> int list" where
  "get_begin r = roi_offset r"

definition get_end :: "roi \<Rightarrow> int list" where
  "get_end r = map2 (+) (roi_offset r) (roi_shape r)"

definition logical_and :: "bool list \<Rightarrow> bool list \<Rightarrow> bool list" where
  "logical_and xs ys = map2 (\<and>) xs ys"

text \<open>
  The filter loop of \<^verbatim>\<open>provide\<close>: a boolean selection over the rows, refined once per axis
  with the lower and the upper bound.
\<close>

definition point_filter :: "int list \<Rightarrow> int list \<Rightarrow> row list \<Rightarrow> bool list" where
  "point_filter min_bb max_bb rows =
     foldl (\<lambda>pf d.
              logical_and
                (logical_and pf (map (\<lambda>p. of_int (min_bb ! d) \<le> location p ! d) rows))
                (map (\<lambda>p. location p ! d \<le> of_int (max_bb ! d)) rows))
       (replicate (length rows) True) [0..<ndims]"

text \<open>\<^verbatim>\<open>self.data[point_filter]\<close>: the rows whose entry of the selection is true, in table order.\<close>

definition select_rows :: "row list \<Rightarrow> bool list \<Rightarrow> row list" where
  "select_rows rows sel = map fst (filter snd (zip rows sel))"

text \<open>
  \<^verbatim>\<open>_get_points\<close>: a dictionary keyed by \<^verbatim>\<open>point_id\<close>. A Python dictionary keeps insertion
  order and a later value for a key replaces the earlier one in place, which is what
  \<open>AList.update\<close> does on an association list.
\<close>

definition get_points :: "row list \<Rightarrow> bool list \<Rightarrow> (int \<times> SwcPoint) list" where
  "get_points rows sel =
     foldl (\<lambda>d p. AList.update (point_id p) p d) [] (select_rows rows sel)"

text \<open>\<^verbatim>\<open>_get_point\<close>: the first selected row; \<^verbatim>\<open>[0]\<close> on an empty selection raises.\<close>

definition get_point :: "row list \<Rightarrow> bool list \<Rightarrow> error + SwcPoint" where
  "get_point rows sel = (case select_rows rows sel of [] \<Rightarrow> Inl IndexError | p # _ \<Rightarrow> Inr p)"

text \<open>
  The values a numpy division can give: a finite number, or for a zero divisor an
  infinity, or not-a-number for \<open>0 / 0\<close>. No comparison with not-a-number holds.
\<close>

datatype npfloat = Fin rat | PosInf | NegInf | NaN

definition np_divide :: "rat \<Rightarrow> rat \<Rightarrow> npfloat" where
  "np_divide a b =
     (if b \<noteq> 0 then Fin (a / b) else if 0 < a then PosInf else if a < 0 then NegInf else NaN)"

text \<open>The selection \<^verbatim>\<open>np.logical_and(s_bb >= 0, s_bb <= 1)\<close>, giving the selected value.\<close>

definition in_unit_interval :: "npfloat \<Rightarrow> rat option" where
  "in_unit_interval x =
     (case x of Fin r \<Rightarrow> if 0 \<le> r \<and> r \<le> 1 then Some r else None | _ \<Rightarrow> None)"

definition resample_relative :: "SwcPoint \<Rightarrow> SwcPoint \<Rightarrow> int list \<Rightarrow> int list \<Rightarrow> error + rat list" where
  "resample_relative p relative min_bb max_bb =
     (let dist = map2 (-) (location relative) (location p);
          s_bb = map2 np_divide (map2 (-) (map of_int min_bb) (location p)) dist
               @ map2 np_divide (map2 (-) (map of_int max_bb) (location p)) dist
      in case List.map_filter in_unit_interval s_bb of
           [] \<Rightarrow> Inl ResampleFailed
         | r # rs \<Rightarrow>
             (let s = fold min rs r
              in Inr (map2 (\<lambda>x d. of_int \<lfloor>x + s * d\<rfloor>) (location p) dist)))"

text \<open>The parent branch of the loop body of \<^verbatim>\<open>provide\<close>.\<close>

definition resample_parent ::
    "swc_source \<Rightarrow> int list \<Rightarrow> int list \<Rightarrow> (int \<times> SwcPoint) list \<Rightarrow> int \<Rightarrow> SwcPoint
      \<Rightarrow> (int \<times> SwcPoint) list \<Rightarrow> error + (int \<times> SwcPoint) list" where
  "resample_parent src min_bb max_bb points_data pid point rel =
     (if pid \<notin> set (sources (index src)) then
        (case child_to_parent (index src) pid of
           None \<Rightarrow> Inl (KeyError pid)
         | Some par \<Rightarrow>
             if map_of points_data par = None then
               (case get_point (data src) (map (\<lambda>q. point_id q = par) (data src)) of
                  Inl e \<Rightarrow> Inl e
                | Inr parent \<Rightarrow>
                    (case resample_relative point parent min_bb max_bb of
                       Inl e \<Rightarrow> Inl e
                     | Inr loc \<Rightarrow>
                         Inr (AList.update par
                                \<lparr>location = loc, point_id = par, parent_id = -1,
                                 label_id = label_id point\<rparr> rel)))
             else Inr rel)
      else Inr rel)"

text \<open>The children branch: the inner \<^verbatim>\<open>for child_id in ...\<close> loop.\<close>

fun resample_children ::
    "swc_source \<Rightarrow> int list \<Rightarrow> int list \<Rightarrow> (int \<times> SwcPoint) list \<Rightarrow> int \<Rightarrow> SwcPoint
      \<Rightarrow> int list \<Rightarrow> (int \<times> SwcPoint) list \<Rightarrow> error + (int \<times> SwcPoint) list" where
  "resample_children src min_bb max_bb points_data pid point [] rel = Inr rel"
| "resample_children src min_bb max_bb points_data pid point (child_id # cs) rel =
     (if map_of points_data child_id = None then
        (case get_point (data src) (map (\<lambda>q. point_id q = child_id) (data src)) of
           Inl e \<Rightarrow> Inl e
         | Inr child \<Rightarrow>
             (case resample_relative point child min_bb max_bb of
                Inl e \<Rightarrow> Inl e
              | Inr loc \<Rightarrow>
                  resample_children src min_bb max_bb points_data pid point cs
                    (AList.update child_id
                       \<lparr>location = loc, point_id = child_id, parent_id = pid,
                        label_id = label_id point\<rparr> rel)))
      else resample_children src min_bb max_bb points_data pid point cs rel)"

text \<open>The loop \<^verbatim>\<open>for point_id in points_data\<close>, in the dictionary's order.\<close>

fun resample_loop ::
    "swc_source \<Rightarrow> int list \<Rightarrow> int list \<Rightarrow> (int \<times> SwcPoint) list \<Rightarrow> (int \<times> SwcPoint) list
      \<Rightarrow> (int \<times> SwcPoint) list \<Rightarrow> error + (int \<times> SwcPoint) list" where
  "resample_loop src min_bb max_bb points_data [] rel = Inr rel"
| "resample_loop src min_bb max_bb points_data ((pid, point) # rest) rel =
     (case resample_parent src min_bb max_bb points_data pid point rel of
        Inl e \<Rightarrow> Inl e
      | Inr rel1 \<Rightarrow>
          (case (case parent_to_children (index src) pid of
                   None \<Rightarrow> Inr rel1
                 | Some cs \<Rightarrow> resample_children src min_bb max_bb points_data pid point cs rel1) of
             Inl e \<Rightarrow> Inl e
           | Inr rel2 \<Rightarrow> resample_loop src min_bb max_bb points_data rest rel2))"

definition dict_update_all :: "(int \<times> SwcPoint) list \<Rightarrow> (int \<times> SwcPoint) list \<Rightarrow> (int \<times> SwcPoint) list" where
  "dict_update_all d new = foldl (\<lambda>d (k, v). AList.update k v d) d new"

text \<open>\<^verbatim>\<open>provide\<close> for one points key: the point map returned for the requested region.\<close>

definition provide :: "swc_source \<Rightarrow> roi \<Rightarrow> error + (int \<times> SwcPoint) list" where
  "provide src request_roi =
     (let min_bb = get_begin request_roi;
          max_bb = map2 (-) (get_end request_roi) [1, 1, 1];
          points_data = get_points (data src) (point_filter min_bb max_bb (data src))
      in if length points_data < length (data src) then
           (case resample_loop src min_bb max_bb points_data points_data [] of
              Inl e \<Rightarrow> Inl e
            | Inr relatives_resampled \<Rightarrow> Inr (dict_update_all points_data relatives_resampled))
         else Inr points_data)"

section \<open>RasterizeSkeleton\<close>

type_synonym voxel = "int list"

text \<open>\<^verbatim>\<open>np.amax(np.abs(v))\<close> on a non-empty integer vector.\<close>

definition amax_abs :: "int list \<Rightarrow> int" where
  "amax_abs v = Max (set (map abs v))"

definition bresenhamline_nslope :: "int list \<Rightarrow> rat list" where
  "bresenhamline_nslope slope =
     (let scale = amax_abs slope
      in if scale \<noteq> 0 then map (\<lambda>x. of_int x / of_int scale) slope else map of_int slope)"

text \<open>\<^verbatim>\<open>np.rint\<close>: the nearest integer, a tie going to the even neighbour.\<close>

definition rint :: "rat \<Rightarrow> int" where
  "rint x =
     (let f = \<lfloor>x\<rfloor>; r = x - of_int f
      in if r < 1 / 2 then f else if 1 / 2 < r then f + 1 else if even f then f else f + 1)"

text \<open>
  \<^verbatim>\<open>_bresenhamline\<close>: one row per step \<open>k = 1, ..., max_iter\<close>, the start plus \<open>k\<close> times the
  normalised slope, rounded.
\<close>

definition bresenhamline :: "voxel \<Rightarrow> voxel \<Rightarrow> int \<Rightarrow> voxel list" where
  "bresenhamline start_voxel end_voxel max_iter =
     (let delta = map2 (-) end_voxel start_voxel;
          max_iter' = (if max_iter = - 1 then amax_abs delta else max_iter);
          nslope = bresenhamline_nslope delta
      in map (\<lambda>k. map2 (\<lambda>s c. rint (of_int s + c * of_int k)) start_voxel nslope) [1..max_iter'])"

text \<open>
  Indexing one axis of length \<open>n\<close> of a numpy array: an index in \<open>[0, n)\<close> is used as it
  is, one in \<open>[-n, 0)\<close> counts from the end, any other raises \<^verbatim>\<open>IndexError\<close>.
\<close>

definition np_index :: "int \<Rightarrow> int \<Rightarrow> error + int" where
  "np_index n i =
     (if 0 \<le> i \<and> i < n then Inr i else if - n \<le> i \<and> i < 0 then Inr (i + n) else Inl IndexError)"

text \<open>
  A boolean array of a given three-axis shape is the set of its true cells. Setting the
  cell \<^verbatim>\<open>[v[0], v[1], v[2]]\<close>:
\<close>

definition set_cell :: "int list \<Rightarrow> voxel \<Rightarrow> voxel set \<Rightarrow> error + voxel set" where
  "set_cell shp v cells =
     (case np_index (shp ! 0) (v ! 0) of
        Inl e \<Rightarrow> Inl e
      | Inr i \<Rightarrow>
          (case np_index (shp ! 1) (v ! 1) of
             Inl e \<Rightarrow> Inl e
           | Inr j \<Rightarrow>
               (case np_index (shp ! 2) (v ! 2) of
                  Inl e \<Rightarrow> Inl e
                | Inr k \<Rightarrow> Inr (insert [i, j, k] cells))))"

fun set_cells :: "int list \<Rightarrow> voxel list \<Rightarrow> voxel set \<Rightarrow> error + voxel set" where
  "set_cells shp [] cells = Inr cells"
| "set_cells shp (v # vs) cells =
     (case set_cell shp v cells of Inl e \<Rightarrow> Inl e | Inr cells' \<Rightarrow> set_cells shp vs cells')"

text \<open>\<^verbatim>\<open>_rasterize_line_segment\<close>: the line's voxels, then the start point itself.\<close>

definition rasterize_line_segment :: "int list \<Rightarrow> voxel \<Rightarrow> voxel \<Rightarrow> voxel set \<Rightarrow> error + voxel set" where
  "rasterize_line_segment shp point parent skeletonized =
     (let line_segment_points = bresenhamline point parent (- 1)
      in case (if 0 < length line_segment_points
               then set_cells shp line_segment_points skeletonized
               else Inr skeletonized) of
           Inl e \<Rightarrow> Inl e
         | Inr skeletonized' \<Rightarrow> set_cell shp point skeletonized')"

text \<open>\<^verbatim>\<open>astype(int)\<close> on a float: the fractional part is dropped (rounding toward zero).\<close>

definition astype_int :: "rat \<Rightarrow> int" where
  "astype_int x = (if 0 \<le> x then \<lfloor>x\<rfloor> else \<lceil>x\<rceil>)"

text \<open>
  The two endpoint conversions of \<^verbatim>\<open>process\<close>, as written: \<^verbatim>\<open>p1\<close> subtracts the offset
  before \<^verbatim>\<open>astype(int)\<close>, \<^verbatim>\<open>p2\<close> after it.
\<close>

definition p1_voxel :: "rat list \<Rightarrow> int list \<Rightarrow> int list \<Rightarrow> voxel" where
  "p1_voxel loc voxel_size offset =
     map astype_int (map2 (-) (map2 (/) loc (map of_int voxel_size)) (map of_int offset))"

definition p2_voxel :: "rat list \<Rightarrow> int list \<Rightarrow> int list \<Rightarrow> voxel" where
  "p2_voxel loc voxel_size offset =
     map2 (-) (map astype_int (map2 (/) loc (map of_int voxel_size))) offset"

text \<open>
  The points handed to \<^verbatim>\<open>process\<close>: the point map, the region of its spec, and the graph
  (node locations and directed edges). The weakly connected components are computed by
  a graph library; they are part of the input here, as the list of node lists the
  library yields, in its order.
\<close>

record graph_points =
  points_data :: "(int \<times> SwcPoint) list"
  points_roi :: roi
  node_location :: "int \<rightharpoonup> rat list"
  graph_edges :: "(int \<times> int) list"
  components :: "int list list"

text \<open>\<^verbatim>\<open>graph.subgraph(cc).edges\<close>: the edges with both ends in the component.\<close>

definition subgraph_edges :: "graph_points \<Rightarrow> int list \<Rightarrow> (int \<times> int) list" where
  "subgraph_edges points cc = filter (\<lambda>(u, v). u \<in> set cc \<and> v \<in> set cc) (graph_edges points)"

text \<open>The inner loop \<^verbatim>\<open>for u, v in cc.edges\<close>, threading \<^verbatim>\<open>binarized\<close>.\<close>

fun draw_edges ::
    "graph_points \<Rightarrow> int list \<Rightarrow> int list \<Rightarrow> int list \<Rightarrow> (int \<times> int) list \<Rightarrow> voxel set
      \<Rightarrow> error + voxel set" where
  "draw_edges points voxel_size offset shp [] binarized = Inr binarized"
| "draw_edges points voxel_size offset shp ((u, v) # es) binarized =
     (case node_location points u of
        None \<Rightarrow> Inl (KeyError u)
      | Some lu \<Rightarrow>
          (case node_location points v of
             None \<Rightarrow> Inl (KeyError v)
           | Some lv \<Rightarrow>
               (case rasterize_line_segment shp (p1_voxel lu voxel_size offset)
                       (p2_voxel lv voxel_size offset) binarized of
                  Inl e \<Rightarrow> Inl e
                | Inr binarized' \<Rightarrow> draw_edges points voxel_size offset shp es binarized')))"

text \<open>
  The outer loop \<^verbatim>\<open>for i, cc in enumerate(...)\<close>. The array has the caller's integer dtype,
  modelled as a machine word of that width: \<^verbatim>\<open>array_data[binarized] = i + 1\<close> stores the
  value converted to the dtype, which keeps its low bits.
\<close>

fun draw_components ::
    "graph_points \<Rightarrow> int list \<Rightarrow> int list \<Rightarrow> int list \<Rightarrow> nat \<Rightarrow> int list list
      \<Rightarrow> (voxel \<Rightarrow> 'a::len word) \<Rightarrow> error + (voxel \<Rightarrow> 'a word)" where
  "draw_components points voxel_size offset shp i [] array_data = Inr array_data"
| "draw_components points voxel_size offset shp i (cc # ccs) array_data =
     (case draw_edges points voxel_size offset shp (subgraph_edges points cc) {} of
        Inl e \<Rightarrow> Inl e
      | Inr binarized \<Rightarrow>
          draw_components points voxel_size offset shp (Suc i) ccs
            (\<lambda>v. if v \<in> binarized then of_nat (i + 1) else array_data v))"

text \<open>
  The grid of \<^verbatim>\<open>process\<close>: the region of the points' spec, grown to multiples of the voxel
  size (\<^verbatim>\<open>snap_to_grid\<close> of the surrounding library) and divided by the voxel size.
\<close>

definition grid_offset :: "roi \<Rightarrow> int list \<Rightarrow> int list" where
  "grid_offset r voxel_size = map2 (div) (get_begin r) voxel_size"

definition grid_shape :: "roi \<Rightarrow> int list \<Rightarrow> int list" where
  "grid_shape r voxel_size =
     map2 (-) (map2 (\<lambda>e s. - ((- e) div s)) (get_end r) voxel_size) (grid_offset r voxel_size)"

record 'c voxel_array =
  array_offset :: "int list"
  array_shape :: "int list"
  array_data :: "voxel \<Rightarrow> 'c"

text \<open>
  \<^verbatim>\<open>process\<close> up to the array it builds (offset and shape in voxels); the final
  \<^verbatim>\<open>array.crop\<close> of the surrounding library selects the requested window of it.
\<close>

definition process :: "graph_points \<Rightarrow> int list \<Rightarrow> error + ('a::len word) voxel_array" where
  "process points voxel_size =
     (if \<not> 0 < length (points_data points) then Inl AssertionError
      else
        (let offset = grid_offset (points_roi points) voxel_size;
             shp = grid_shape (points_roi points) voxel_size
         in case draw_components points voxel_size offset shp 0 (components points) (\<lambda>v. 0) of
              Inl e \<Rightarrow> Inl e
            | Inr a \<Rightarrow> Inr \<lparr>array_offset = offset, array_shape = shp, array_data = a\<rparr>))"

section \<open>Specification-side notions\<close>

text \<open>
  The endpoint conversion as the specification words it: the location divided by the
  voxel size, minus the grid offset, rounded to the nearest integer.
\<close>

definition spec_round_voxel :: "rat list \<Rightarrow> int list \<Rightarrow> int list \<Rightarrow> voxel" where
  "spec_round_voxel loc voxel_size offset =
     map rint (map2 (-) (map2 (/) loc (map of_int voxel_size)) (map of_int offset))"

text \<open>
  Two voxels are neighbours when they differ, and on no axis by more than one (the
  eight-neighbourhood in the plane, its analogue in any dimension). A path is connected
  when each voxel is a neighbour of the next.
\<close>

definition adjacent_voxels :: "voxel \<Rightarrow> voxel \<Rightarrow> bool" where
  "adjacent_voxels u v \<longleftrightarrow> length u = length v \<and> u \<noteq> v \<and> (\<forall>d<length u. \<bar>u ! d - v ! d\<bar> \<le> 1)"

fun connected_path :: "voxel list \<Rightarrow> bool" where
  "connected_path (u # v # vs) \<longleftrightarrow> adjacent_voxels u v \<and> connected_path (v # vs)"
| "connected_path _ \<longleftrightarrow> True"

text \<open>
  The value of one axis at step \<open>k\<close> of the line from \<open>sd\<close> to \<open>ed\<close> with \<open>M\<close> steps, and the
  voxel of the line from \<open>s\<close> to \<open>e\<close> at step \<open>k\<close>; the lemmas below show that
  \<^verbatim>\<open>_bresenhamline\<close> computes these.
\<close>

definition axis_val :: "int \<Rightarrow> int \<Rightarrow> int \<Rightarrow> int \<Rightarrow> int" where
  "axis_val sd ed M k = rint (of_int sd + of_int (ed - sd) / of_int M * of_int k)"

definition line_point :: "voxel \<Rightarrow> voxel \<Rightarrow> int \<Rightarrow> voxel" where
  "line_point s e k = map2 (\<lambda>a b. axis_val a b (amax_abs (map2 (-) e s)) k) s e"

text \<open>
  The parent/child structure of a table, as the specification speaks of it. The roots are the
  ids of the rows with \<^verbatim>\<open>point_id == parent_id\<close>, in table order; the children of \<open>p\<close> are the ids
  of the non-root rows naming \<open>p\<close> as parent, in table order; an edge leads from a non-root
  row's id to its parent id. A point is rooted when following parent links from it ends in a
  root row. A table is a valid forest when its ids are unique and every row is rooted. Two
  ids are weakly connected when a path of edges, each taken in either direction, joins them.
  \<open>desc rows p\<close> is \<open>p\<close> with everything below it, and \<open>stamp m S l\<close> is the labeling \<open>m\<close> with
  the points of \<open>S\<close> given the label \<open>l\<close>.
\<close>

definition roots :: "row list \<Rightarrow> int list" where
  "roots rows = map point_id (filter (\<lambda>r. point_id r = parent_id r) rows)"

definition kids :: "row list \<Rightarrow> int \<Rightarrow> int list" where
  "kids rows p = map point_id (filter (\<lambda>r. point_id r \<noteq> parent_id r \<and> parent_id r = p) rows)"

definition edge_rel :: "row list \<Rightarrow> (int \<times> int) set" where
  "edge_rel rows = {(point_id r, parent_id r) | r. r \<in> set rows \<and> point_id r \<noteq> parent_id r}"

inductive rooted :: "row list \<Rightarrow> int \<Rightarrow> bool" for rows where
  root: "r \<in> set rows \<Longrightarrow> point_id r = parent_id r \<Longrightarrow> rooted rows (point_id r)"
| step: "r \<in> set rows \<Longrightarrow> point_id r \<noteq> parent_id r \<Longrightarrow> rooted rows (parent_id r) \<Longrightarrow> rooted rows (point_id r)"

definition valid_forest :: "row list \<Rightarrow> bool" where
  "valid_forest rows \<longleftrightarrow> distinct (map point_id rows) \<and> (\<forall>r\<in>set rows. rooted rows (point_id r))"

definition weakly_connected :: "row list \<Rightarrow> int \<Rightarrow> int \<Rightarrow> bool" where
  "weakly_connected rows a b \<longleftrightarrow> (a, b) \<in> (edge_rel rows \<union> (edge_rel rows)\<inverse>)\<^sup>*"

definition desc :: "row list \<Rightarrow> int \<Rightarrow> int set" where
  "desc rows p = {q. (q, p) \<in> (edge_rel rows)\<^sup>*}"

definition stamp :: "(int \<rightharpoonup> int) \<Rightarrow> int set \<Rightarrow> int \<Rightarrow> (int \<rightharpoonup> int)" where
  "stamp m S l = (\<lambda>q. if q \<in> S then Some l else m q)"

text \<open>
  The region predicate of the specification: on each of the three axes the location lies
  between the region's begin and its end minus one, both inclusive. \<open>in_box\<close> is the same
  for a location of three coordinates and explicit bounds, and \<open>fresh_in_box\<close> says of a
  map of resampled relatives that its keys are not keys of the point map \<open>pd\<close> and that
  its points lie in the box.
\<close>

definition in_region :: "roi \<Rightarrow> SwcPoint \<Rightarrow> bool" where
  "in_region r p \<longleftrightarrow>
     (\<forall>d<3. of_int (get_begin r ! d) \<le> location p ! d \<and> location p ! d \<le> of_int (get_end r ! d) - 1)"

definition in_box :: "int list \<Rightarrow> int list \<Rightarrow> rat list \<Rightarrow> bool" where
  "in_box lo hi loc \<longleftrightarrow>
     length loc = 3 \<and> (\<forall>d<3. of_int (lo ! d) \<le> loc ! d \<and> loc ! d \<le> of_int (hi ! d))"

definition fresh_in_box ::
    "(int \<times> SwcPoint) list \<Rightarrow> int list \<Rightarrow> int list \<Rightarrow> (int \<times> SwcPoint) list \<Rightarrow> bool" where
  "fresh_in_box pd lo hi rel \<longleftrightarrow>
     (\<forall>(k, q)\<in>set rel. map_of pd k = None \<and> in_box lo hi (location q))"

section \<open>Properties of the region filter\<close>

lemma all_less_3: "(\<forall>d<3. P (d::nat)) \<longleftrightarrow> P 0 \<and> P 1 \<and> P 2"
proof -
  have "{..<3::nat} = {0, 1, 2}" by auto
  then have "(\<forall>d<3. P d) \<longleftrightarrow> (\<forall>d\<in>{0, 1, 2}. P d)" by (metis lessThan_iff)
  then show ?thesis by simp
qed

lemma logical_and_map: "logical_and (map f xs) (map g xs) = map (\<lambda>x. f x \<and> g x) xs"
  by (induction xs) (simp_all add: logical_and_def)

lemma replicate_True_map: "replicate (length xs) True = map (\<lambda>_. True) xs"
  by (induction xs) simp_all

lemma point_filter_map:
  "point_filter min_bb max_bb rows =
     map (\<lambda>p. \<forall>d<3. of_int (min_bb ! d) \<le> location p ! d \<and> location p ! d \<le> of_int (max_bb ! d)) rows"
proof -
  have u: "[0..<ndims] = [0, 1, 2]"
    by (simp add: ndims_def upt_rec)
  show ?thesis
    unfolding point_filter_def u
    by (simp add: replicate_True_map logical_and_map all_less_3 conj_assoc)
qed

lemma select_rows_map: "select_rows rows (map f rows) = filter f rows"
  by (induction rows) (simp_all add: select_rows_def)

lemma get_points_keys_aux:
  "fst ` set (foldl (\<lambda>d p. AList.update (point_id p) p d) acc ps) = fst ` set acc \<union> point_id ` set ps"
  by (induction ps arbitrary: acc) (auto simp: dom_update)

lemma get_points_keys: "fst ` set (get_points rows sel) = point_id ` set (select_rows rows sel)"
  by (simp add: get_points_def get_points_keys_aux)

lemma max_bb_nth:
  assumes "length (get_end r) = 3" "d < 3"
  shows "map2 (-) (get_end r) [1, 1, 1] ! d = get_end r ! d - 1"
proof -
  obtain a b c where e: "get_end r = [a, b, c]"
    using assms(1) by (auto simp: length_Suc_conv numeral_3_eq_3)
  from assms(2) have "d = 0 \<or> d = 1 \<or> d = 2" by auto
  then show ?thesis by (auto simp: e)
qed

lemma select_rows_region:
  assumes "length (roi_offset r) = 3" and "length (roi_shape r) = 3"
  shows "select_rows rows (point_filter (get_begin r) (map2 (-) (get_end r) [1, 1, 1]) rows) =
           filter (\<lambda>p. \<forall>d<3. of_int (get_begin r ! d) \<le> location p ! d
                            \<and> location p ! d \<le> of_int (get_end r ! d - 1)) rows"
proof -
  have len: "length (get_end r) = 3"
    using assms by (simp add: get_end_def)
  show ?thesis
    unfolding point_filter_map select_rows_map
    by (rule filter_cong) (simp_all add: max_bb_nth [OF len])
qed

subsection \<open>The point map of the kept rows\<close>

lemma alist_update_fresh: "k \<notin> fst ` set al \<Longrightarrow> AList.update k v al = al @ [(k, v)]"
  by (induction al) auto

lemma alist_update_subset: "set (AList.update k v al) \<subseteq> insert (k, v) (set al)"
  by (induction al) auto

lemma get_points_distinct_aux:
  "distinct (map point_id ps) \<Longrightarrow> point_id ` set ps \<inter> fst ` set acc = {} \<Longrightarrow>
     foldl (\<lambda>d p. AList.update (point_id p) p d) acc ps = acc @ map (\<lambda>p. (point_id p, p)) ps"
proof (induction ps arbitrary: acc)
  case Nil
  then show ?case by simp
next
  case (Cons p ps)
  from Cons.prems have fresh: "point_id p \<notin> fst ` set acc" by auto
  have "point_id ` set ps \<inter> fst ` set (acc @ [(point_id p, p)]) = {}"
    using Cons.prems by auto
  with Cons.IH [of "acc @ [(point_id p, p)]"] Cons.prems(1) show ?case
    by (simp add: alist_update_fresh [OF fresh])
qed

lemma get_points_distinct:
  "distinct (map point_id rows) \<Longrightarrow>
     get_points rows (map f rows) = map (\<lambda>p. (point_id p, p)) (filter f rows)"
  unfolding get_points_def select_rows_map
  using get_points_distinct_aux [of "filter f rows" "[]"] by (simp add: distinct_map_filter)

lemma map_of_rows:
  "distinct (map point_id ps) \<Longrightarrow>
     map_of (map (\<lambda>p. (point_id p, p)) ps) k = Some p \<longleftrightarrow> p \<in> set ps \<and> point_id p = k"
proof -
  assume d: "distinct (map point_id ps)"
  have "map fst (map (\<lambda>p. (point_id p, p)) ps) = map point_id ps" by (simp add: comp_def)
  with d have "distinct (map fst (map (\<lambda>p. (point_id p, p)) ps))" by (simp only:)
  then show ?thesis by (auto simp: map_of_eq_Some_iff)
qed

lemma dict_update_all_from:
  "map_of (dict_update_all d new) k = Some v \<Longrightarrow> map_of d k = Some v \<or> (k, v) \<in> set new"
  unfolding dict_update_all_def
proof (induction new arbitrary: d)
  case Nil
  then show ?case by simp
next
  case (Cons e new)
  obtain k' v' where e: "e = (k', v')" by (cases e)
  from Cons.prems have "map_of (foldl (\<lambda>d (k, v). AList.update k v d) (AList.update k' v' d) new) k = Some v"
    by (simp add: e)
  from Cons.IH [OF this] show ?case
    by (auto simp: e update_conv' split: if_splits)
qed

lemma dict_update_all_keep:
  "k \<notin> fst ` set new \<Longrightarrow> map_of (dict_update_all d new) k = map_of d k"
  unfolding dict_update_all_def
proof (induction new arbitrary: d)
  case Nil
  then show ?case by simp
next
  case (Cons e new)
  obtain k' v' where e: "e = (k', v')" by (cases e)
  from Cons.prems have "k \<noteq> k'" "k \<notin> fst ` set new" by (auto simp: e)
  with Cons.IH [of "AList.update k' v' d"] show ?case
    by (simp add: e update_conv')
qed

subsection \<open>Resampled relatives lie in the box\<close>

lemma set_map_filter_conv:
  "set (List.map_filter g xs) = {y. \<exists>x\<in>set xs. g x = Some y}"
  by (induction xs) (auto simp: List.map_filter_simps split: option.splits)

lemma s_bb_nth:
  assumes "length x = 3" "length dv = 3" "length bb = 3" "d < 3"
  shows "map2 np_divide (map2 (-) (map of_int bb) x) dv ! d
           = np_divide (of_int (bb ! d) - x ! d) (dv ! d)"
  using assms by simp

lemma candidate_mem:
  assumes len: "length x = 3" "length dv = 3" "length lo = 3" "length hi = 3"
    and d: "d < 3" and nz: "dv ! d \<noteq> 0"
    and b: "b = lo ! d \<or> b = hi ! d"
    and t: "t = (of_int b - x ! d) / dv ! d" "0 \<le> t" "t \<le> 1"
  shows "t \<in> set (List.map_filter in_unit_interval
                    (map2 np_divide (map2 (-) (map of_int lo) x) dv
                     @ map2 np_divide (map2 (-) (map of_int hi) x) dv))"
proof -
  let ?l = "map2 np_divide (map2 (-) (map of_int lo) x) dv"
  let ?h = "map2 np_divide (map2 (-) (map of_int hi) x) dv"
  have ll: "d < length ?l" and lh: "d < length ?h" using len d by simp_all
  from b have "np_divide (of_int b - x ! d) (dv ! d) \<in> set (?l @ ?h)"
  proof
    assume "b = lo ! d"
    then have "?l ! d = np_divide (of_int b - x ! d) (dv ! d)"
      using s_bb_nth [OF len(1,2,3) d] by simp
    with nth_mem [OF ll] show ?thesis by (metis Un_iff set_append)
  next
    assume "b = hi ! d"
    then have "?h ! d = np_divide (of_int b - x ! d) (dv ! d)"
      using s_bb_nth [OF len(1,2,4) d] by simp
    with nth_mem [OF lh] show ?thesis by (metis Un_iff set_append)
  qed
  moreover have "in_unit_interval (np_divide (of_int b - x ! d) (dv ! d)) = Some t"
    using nz t by (simp add: np_divide_def in_unit_interval_def)
  ultimately show ?thesis unfolding set_map_filter_conv by blast
qed

lemma candidate_unit:
  "t \<in> set (List.map_filter in_unit_interval xs) \<Longrightarrow> 0 \<le> t \<and> t \<le> 1"
proof -
  assume "t \<in> set (List.map_filter in_unit_interval xs)"
  then obtain e where "in_unit_interval e = Some t" unfolding set_map_filter_conv by blast
  then show ?thesis by (cases e) (auto simp: in_unit_interval_def split: if_splits)
qed

lemma resample_relative_in_box:
  assumes len: "length (location p) = 3" "length (location rel) = 3"
      "length min_bb = 3" "length max_bb = 3"
    and box: "\<forall>d<3. of_int (min_bb ! d) \<le> location p ! d \<and> location p ! d \<le> of_int (max_bb ! d)"
    and res: "resample_relative p rel min_bb max_bb = Inr loc"
  shows "length loc = 3
       \<and> (\<forall>d<3. of_int (min_bb ! d) \<le> loc ! d \<and> loc ! d \<le> of_int (max_bb ! d))"
proof -
  define x where "x = location p"
  define dv where "dv = map2 (-) (location rel) x"
  define cands where "cands = List.map_filter in_unit_interval
                    (map2 np_divide (map2 (-) (map of_int min_bb) x) dv
                     @ map2 np_divide (map2 (-) (map of_int max_bb) x) dv)"
  have lx: "length x = 3" and ld: "length dv = 3" using len by (simp_all add: x_def dv_def)
  from res obtain c cs where c: "cands = c # cs"
    and loc: "loc = map2 (\<lambda>x d. of_int \<lfloor>x + fold min cs c * d\<rfloor>) x dv"
    unfolding resample_relative_def Let_def cands_def dv_def x_def
    by (auto split: list.splits)
  define s where "s = fold min cs c"
  have sMin: "s = Min (set cands)" by (simp only: s_def c Min.set_eq_fold)
  have fin: "finite (set cands)" and ne: "set cands \<noteq> {}" by (simp_all add: c)
  have s_in: "s \<in> set cands" unfolding sMin using fin ne by (rule Min_in)
  have s_le: "s \<le> t" if "t \<in> set cands" for t unfolding sMin using fin that by (rule Min_le)
  from s_in have s01: "0 \<le> s" "s \<le> 1" using candidate_unit unfolding cands_def by blast+
  have lenloc: "length loc = 3" by (simp add: loc lx ld)
  have axis: "of_int (min_bb ! d) \<le> loc ! d \<and> loc ! d \<le> of_int (max_bb ! d)" if d: "d < 3" for d
  proof -
    define z where "z = x ! d + s * dv ! d"
    have locd: "loc ! d = of_int \<lfloor>z\<rfloor>" using d lx ld by (simp add: loc z_def s_def)
    from box d have bx: "of_int (min_bb ! d) \<le> x ! d" "x ! d \<le> of_int (max_bb ! d)"
      by (simp_all add: x_def)
    have up: "z \<le> of_int (max_bb ! d)"
    proof (rule ccontr)
      assume "\<not> z \<le> of_int (max_bb ! d)"
      then have gt: "of_int (max_bb ! d) - x ! d < s * dv ! d" by (simp add: z_def)
      have pos: "0 < dv ! d"
      proof (rule ccontr)
        assume "\<not> 0 < dv ! d"
        then have "s * dv ! d \<le> 0" using s01(1) by (simp add: mult_nonneg_nonpos)
        with gt bx(2) show False by simp
      qed
      define t where "t = (of_int (max_bb ! d) - x ! d) / dv ! d"
      have t0: "0 \<le> t" using bx(2) pos by (simp add: t_def)
      have ts: "t < s" using gt pos by (simp add: t_def pos_divide_less_eq)
      with s01(2) have t1: "t \<le> 1" by simp
      have "t \<in> set cands" unfolding cands_def
        by (rule candidate_mem [OF lx ld len(3,4) d _ _ t_def t0 t1]) (use pos in simp_all)
      from s_le [OF this] ts show False by simp
    qed
    have low: "of_int (min_bb ! d) \<le> z"
    proof (rule ccontr)
      assume "\<not> of_int (min_bb ! d) \<le> z"
      then have lt: "s * dv ! d < of_int (min_bb ! d) - x ! d" by (simp add: z_def)
      have neg: "dv ! d < 0"
      proof (rule ccontr)
        assume "\<not> dv ! d < 0"
        then have "0 \<le> s * dv ! d" using s01(1) by simp
        with lt bx(1) show False by simp
      qed
      define t where "t = (of_int (min_bb ! d) - x ! d) / dv ! d"
      have t0: "0 \<le> t" using bx(1) neg by (simp add: t_def divide_nonpos_neg)
      have ts: "t < s" using lt neg by (simp add: t_def neg_divide_less_eq)
      with s01(2) have t1: "t \<le> 1" by simp
      have "t \<in> set cands" unfolding cands_def
        by (rule candidate_mem [OF lx ld len(3,4) d _ _ t_def t0 t1]) (use neg in simp_all)
      from s_le [OF this] ts show False by simp
    qed
    from low have "min_bb ! d \<le> \<lfloor>z\<rfloor>" by (simp add: le_floor_iff)
    then have 1: "(of_int (min_bb ! d) :: rat) \<le> of_int \<lfloor>z\<rfloor>" by (simp only: of_int_le_iff)
    have "(of_int \<lfloor>z\<rfloor> :: rat) \<le> z" by simp
    from this up have 2: "(of_int \<lfloor>z\<rfloor> :: rat) \<le> of_int (max_bb ! d)" by (rule order_trans)
    from 1 2 show ?thesis by (simp only: locd)
  qed
  from lenloc axis show ?thesis by blast
qed

lemma get_point_stored:
  "get_point rows (map f rows) = Inr q \<Longrightarrow> q \<in> set rows"
proof -
  assume "get_point rows (map f rows) = Inr q"
  then obtain qs where "filter f rows = q # qs"
    unfolding get_point_def select_rows_map by (auto split: list.splits)
  then have "q \<in> set (filter f rows)" by simp
  then show ?thesis by simp
qed

lemma fresh_in_box_update:
  assumes "fresh_in_box pd lo hi rel" "map_of pd k = None" "in_box lo hi (location q)"
  shows "fresh_in_box pd lo hi (AList.update k q rel)"
  using assms alist_update_subset [of k q rel] unfolding fresh_in_box_def by fastforce

lemma resample_in_box:
  assumes rows: "\<forall>q\<in>set rows. length (location q) = 3"
    and len: "length lo = 3" "length hi = 3"
    and pt: "in_box lo hi (location point)"
    and gp: "get_point rows (map f rows) = Inr q"
    and rs: "resample_relative point q lo hi = Inr loc"
  shows "in_box lo hi loc"
proof -
  from get_point_stored [OF gp] rows have "length (location q) = 3" by blast
  with resample_relative_in_box [OF _ _ len _ rs] pt show ?thesis
    unfolding in_box_def by blast
qed

lemma resample_parent_inv:
  assumes rows: "\<forall>q\<in>set (data src). length (location q) = 3"
    and len: "length lo = 3" "length hi = 3"
    and pt: "in_box lo hi (location point)"
    and inv: "fresh_in_box pd lo hi rel"
    and res: "resample_parent src lo hi pd pid point rel = Inr rel'"
  shows "fresh_in_box pd lo hi rel'"
proof (cases "pid \<notin> set (sources (index src))")
  case False
  with res inv show ?thesis by (simp add: resample_parent_def)
next
  case True
  with res obtain par where par: "child_to_parent (index src) pid = Some par"
    by (auto simp: resample_parent_def split: option.splits)
  show ?thesis
  proof (cases "map_of pd par = None")
    case False
    with res True par inv show ?thesis by (simp add: resample_parent_def)
  next
    case none: True
    from res True par none obtain q loc
      where gp: "get_point (data src) (map (\<lambda>q. point_id q = par) (data src)) = Inr q"
        and rs: "resample_relative point q lo hi = Inr loc"
        and rel': "rel' = AList.update par
                     \<lparr>location = loc, point_id = par, parent_id = -1, label_id = label_id point\<rparr> rel"
      by (auto simp: resample_parent_def split: sum.splits)
    from resample_in_box [OF rows len pt gp rs] have "in_box lo hi loc" .
    with fresh_in_box_update [OF inv none] show ?thesis by (simp add: rel')
  qed
qed

lemma resample_children_inv:
  assumes rows: "\<forall>q\<in>set (data src). length (location q) = 3"
    and len: "length lo = 3" "length hi = 3"
    and pt: "in_box lo hi (location point)"
  shows "fresh_in_box pd lo hi rel \<Longrightarrow>
         resample_children src lo hi pd pid point cs rel = Inr rel' \<Longrightarrow>
         fresh_in_box pd lo hi rel'"
proof (induction cs arbitrary: rel)
  case Nil
  then show ?case by simp
next
  case (Cons c cs)
  show ?case
  proof (cases "map_of pd c = None")
    case False
    with Cons.prems(2) have "resample_children src lo hi pd pid point cs rel = Inr rel'" by simp
    from Cons.IH [OF Cons.prems(1) this] show ?thesis .
  next
    case none: True
    from Cons.prems(2) none obtain q loc
      where gp: "get_point (data src) (map (\<lambda>q. point_id q = c) (data src)) = Inr q"
        and rs: "resample_relative point q lo hi = Inr loc"
        and rest: "resample_children src lo hi pd pid point cs
                     (AList.update c \<lparr>location = loc, point_id = c, parent_id = pid,
                                       label_id = label_id point\<rparr> rel) = Inr rel'"
      by (auto split: sum.splits)
    from resample_in_box [OF rows len pt gp rs] have "in_box lo hi loc" .
    with fresh_in_box_update [OF Cons.prems(1) none]
    have "fresh_in_box pd lo hi (AList.update c \<lparr>location = loc, point_id = c, parent_id = pid,
                                       label_id = label_id point\<rparr> rel)" by simp
    from Cons.IH [OF this rest] show ?thesis .
  qed
qed

lemma resample_loop_inv:
  assumes rows: "\<forall>q\<in>set (data src). length (location q) = 3"
    and len: "length lo = 3" "length hi = 3"
  shows "\<forall>(k, q)\<in>set todo. in_box lo hi (location q) \<Longrightarrow>
         fresh_in_box pd lo hi rel \<Longrightarrow>
         resample_loop src lo hi pd todo rel = Inr rel' \<Longrightarrow>
         fresh_in_box pd lo hi rel'"
proof (induction todo arbitrary: rel)
  case Nil
  then show ?case by simp
next
  case (Cons e todo)
  obtain pid point where e: "e = (pid, point)" by (cases e)
  from Cons.prems(1) have pt: "in_box lo hi (location point)"
    and todo: "\<forall>(k, q)\<in>set todo. in_box lo hi (location q)" by (auto simp: e)
  from Cons.prems(3) obtain rel1 rel2
    where r1: "resample_parent src lo hi pd pid point rel = Inr rel1"
      and r2: "(case parent_to_children (index src) pid of
                  None \<Rightarrow> Inr rel1
                | Some cs \<Rightarrow> resample_children src lo hi pd pid point cs rel1) = Inr rel2"
      and r3: "resample_loop src lo hi pd todo rel2 = Inr rel'"
    by (auto simp: e split: sum.splits)
  from resample_parent_inv [OF rows len pt Cons.prems(2) r1] have i1: "fresh_in_box pd lo hi rel1" .
  have i2: "fresh_in_box pd lo hi rel2"
  proof (cases "parent_to_children (index src) pid")
    case None
    with r2 i1 show ?thesis by simp
  next
    case (Some cs)
    with r2 have "resample_children src lo hi pd pid point cs rel1 = Inr rel2" by simp
    from resample_children_inv [OF rows len pt i1 this] show ?thesis .
  qed
  from Cons.IH [OF todo i2 r3] show ?case .
qed

lemma in_region_box:
  assumes "length (roi_offset r) = 3" "length (roi_shape r) = 3"
  shows "in_region r p \<longleftrightarrow>
     (\<forall>d<3. of_int (get_begin r ! d) \<le> location p ! d
            \<and> location p ! d \<le> of_int (map2 (-) (get_end r) [1, 1, 1] ! d))"
proof -
  have len: "length (get_end r) = 3" using assms by (simp add: get_end_def)
  show ?thesis unfolding in_region_def
    by (intro all_cong1 imp_cong refl) (simp add: max_bb_nth [OF len])
qed

lemma provide_factored:
  assumes len: "length (roi_offset r) = 3" "length (roi_shape r) = 3"
    and d: "distinct (map point_id (data src))"
  shows "provide src r =
     (let pd = map (\<lambda>p. (point_id p, p)) (filter (in_region r) (data src))
      in if length pd < length (data src) then
           (case resample_loop src (get_begin r) (map2 (-) (get_end r) [1, 1, 1]) pd pd [] of
              Inl e \<Rightarrow> Inl e
            | Inr rel \<Rightarrow> Inr (dict_update_all pd rel))
         else Inr pd)"
proof -
  have "point_filter (get_begin r) (map2 (-) (get_end r) [1, 1, 1]) (data src)
          = map (in_region r) (data src)"
    unfolding point_filter_map by (simp add: in_region_box [OF len])
  then have pd: "get_points (data src)
                   (point_filter (get_begin r) (map2 (-) (get_end r) [1, 1, 1]) (data src))
                 = map (\<lambda>p. (point_id p, p)) (filter (in_region r) (data src))"
    by (simp add: get_points_distinct [OF d])
  show ?thesis unfolding provide_def Let_def pd ..
qed

subsection \<open>The rows kept by a region query\<close>

lemma in_region_in_box:
  assumes "length (roi_offset r) = 3" "length (roi_shape r) = 3"
  shows "in_box (get_begin r) (map2 (-) (get_end r) [1, 1, 1]) (location p)
           \<longleftrightarrow> length (location p) = 3 \<and> in_region r p"
  unfolding in_box_def in_region_box [OF assms] ..



section \<open>Properties of the rasterizer's entry checks and endpoint conversion\<close>

lemma provide_nothing_selected:
  assumes "select_rows (data src) (point_filter (get_begin r) (map2 (-) (get_end r) [1, 1, 1]) (data src)) = []"
  shows "provide src r = Inr []"
proof -
  have pd: "get_points (data src) (point_filter (get_begin r) (map2 (-) (get_end r) [1, 1, 1]) (data src)) = []"
    using assms by (simp add: get_points_def)
  show ?thesis
    unfolding provide_def Let_def pd by (simp add: dict_update_all_def)
qed

text \<open>
  C10. A region that holds no stored point is answered by \<^verbatim>\<open>provide\<close> with the empty
  point map, without an error; and \<^verbatim>\<open>process\<close> given an empty point map fails with the
  assertion error instead of returning an array.
\<close>

theorem empty_point_map_rejected:
  assumes "length (roi_offset r) = 3" and "length (roi_shape r) = 3"
    and "\<forall>p \<in> set (data src). \<not> (\<forall>d<3. of_int (get_begin r ! d) \<le> location p ! d
                            \<and> location p ! d \<le> of_int (get_end r ! d - 1))"
    and "points_data points = []"
  shows "provide src r = Inr []
       \<and> (process points voxel_size :: error + ('a::len word) voxel_array) = Inl AssertionError"
proof -
  have "select_rows (data src) (point_filter (get_begin r) (map2 (-) (get_end r) [1, 1, 1]) (data src)) = []"
    unfolding select_rows_region [OF assms(1,2)] using assms(3) by (simp add: filter_empty_conv)
  then have "provide src r = Inr []" by (rule provide_nothing_selected)
  moreover have "(process points voxel_size :: error + ('a word) voxel_array) = Inl AssertionError"
    using assms(4) by (simp add: process_def)
  ultimately show ?thesis by simp
qed

theorem empty_point_map_rejected_witness:
  "provide \<lparr>data = [\<lparr>location = [10, 0, 0], point_id = 1, parent_id = 1, label_id = 1\<rparr>],
            index = build_index [\<lparr>location = [10, 0, 0], point_id = 1, parent_id = 1, label_id = 1\<rparr>],
            point_to_label = [1 \<mapsto> 1]\<rparr>
      \<lparr>roi_offset = [0, 0, 0], roi_shape = [5, 1, 1]\<rparr> = Inr []
   \<and> (process \<lparr>points_data = [], points_roi = \<lparr>roi_offset = [0, 0, 0], roi_shape = [5, 1, 1]\<rparr>,
                node_location = Map.empty, graph_edges = [], components = []\<rparr> [1, 1, 1]
         :: error + (32 word) voxel_array) = Inl AssertionError"
  using empty_point_map_rejected
    [of "\<lparr>roi_offset = [0, 0, 0], roi_shape = [5, 1, 1]\<rparr>"
        "\<lparr>data = [\<lparr>location = [10, 0, 0], point_id = 1, parent_id = 1, label_id = 1\<rparr>],
          index = build_index [\<lparr>location = [10, 0, 0], point_id = 1, parent_id = 1, label_id = 1\<rparr>],
          point_to_label = [1 \<mapsto> 1]\<rparr>"
        "\<lparr>points_data = [], points_roi = \<lparr>roi_offset = [0, 0, 0], roi_shape = [5, 1, 1]\<rparr>,
          node_location = Map.empty, graph_edges = [], components = []\<rparr>"
        "[1, 1, 1]"]
  by (simp add: get_begin_def get_end_def all_less_3)

lemma endpoint_axis:
  assumes "0 \<le> x" "of_int o' \<le> x"
  shows "astype_int (x - of_int o') = \<lfloor>x\<rfloor> - o'" "astype_int x - o' = \<lfloor>x\<rfloor> - o'"
  using assms by (simp_all add: astype_int_def)




section \<open>Components without edges\<close>

lemma subgraph_edges_single:
  "(u, u) \<notin> set (graph_edges points) \<Longrightarrow> subgraph_edges points [u] = []"
  by (auto simp: subgraph_edges_def filter_empty_conv)

text \<open>
  C4, as the claim states it, fails: for a graph of one point and no edge, \<^verbatim>\<open>process\<close>
  returns the array in which every cell is zero, so the point's voxel is not marked.
\<close>

theorem single_point_component_counterexample:
  "(process \<lparr>points_data = [(7, \<lparr>location = [1, 1, 1], point_id = 7, parent_id = 7, label_id = 1\<rparr>)],
             points_roi = \<lparr>roi_offset = [0, 0, 0], roi_shape = [3, 3, 3]\<rparr>,
             node_location = [7 \<mapsto> [1, 1, 1]], graph_edges = [], components = [[7]]\<rparr> [1, 1, 1]
      :: error + (32 word) voxel_array)
   = Inr \<lparr>array_offset = [0, 0, 0], array_shape = [3, 3, 3], array_data = (\<lambda>v. 0)\<rparr>"
  by (simp add: process_def grid_offset_def grid_shape_def get_begin_def get_end_def subgraph_edges_def)

text \<open>
  C4, amended. A component that consists of a single point without an edge to itself
  marks no voxel: only edges are drawn, so the array is left as it was. The component
  still takes a label number, the components after it are numbered from the next one.
\<close>

theorem single_point_component_marks_nothing:
  assumes "(u, u) \<notin> set (graph_edges points)"
  shows "draw_components points voxel_size offset shp i ([u] # ccs) a =
         draw_components points voxel_size offset shp (Suc i) ccs a"
  using assms by (simp add: subgraph_edges_single)

theorem single_point_component_marks_nothing_witness:
  "(draw_components
      \<lparr>points_data = [(7, \<lparr>location = [1, 1, 1], point_id = 7, parent_id = 7, label_id = 1\<rparr>)],
       points_roi = \<lparr>roi_offset = [0, 0, 0], roi_shape = [3, 3, 3]\<rparr>,
       node_location = [7 \<mapsto> [1, 1, 1]], graph_edges = [], components = [[7]]\<rparr>
      [1, 1, 1] [0, 0, 0] [3, 3, 3] 0 [[7]] (\<lambda>v. 0 :: 32 word)) = Inr (\<lambda>v. 0)"
  using single_point_component_marks_nothing
    [of 7 "\<lparr>points_data = [(7, \<lparr>location = [1, 1, 1], point_id = 7, parent_id = 7, label_id = 1\<rparr>)],
            points_roi = \<lparr>roi_offset = [0, 0, 0], roi_shape = [3, 3, 3]\<rparr>,
            node_location = [7 \<mapsto> [1, 1, 1]], graph_edges = [], components = [[7]]\<rparr>"
        "[1, 1, 1]" "[0, 0, 0]" "[3, 3, 3]" 0 "[]" "\<lambda>v. 0 :: 32 word"]
  by simp

section \<open>The boundary point of the specification's example\<close>

text \<open>
  C1, evaluated on the code. The table holds the root \<open>1\<close> at \<open>(10,0,0)\<close> and its child \<open>2\<close>
  at \<open>(0,0,0)\<close>; the region has origin \<open>(0,0,0)\<close> and size \<open>(5,1,1)\<close>. The child is kept, the
  parent is missing, and the point synthesized for the parent has \<^verbatim>\<open>parent_id = -1\<close> but
  lies at \<open>(0,0,0)\<close>, not at \<open>(4,0,0)\<close>: the kept point is on the lower \<open>x\<close> face of the box,
  which gives the intersection parameter \<open>0\<close>, and the selection \<open>0 \<le> s \<le> 1\<close> admits it.
\<close>

theorem boundary_example:
  "\<exists>src. read_points 3 [([10, 0, 0], 1, 1), ([0, 0, 0], 2, 1)] = Some (Inr src)
     \<and> provide src \<lparr>roi_offset = [0, 0, 0], roi_shape = [5, 1, 1]\<rparr>
         = Inr [(2, \<lparr>location = [0, 0, 0], point_id = 2, parent_id = 1, label_id = 1\<rparr>),
                (1, \<lparr>location = [0, 0, 0], point_id = 1, parent_id = - 1, label_id = 1\<rparr>)]"
  by (simp add: read_points_def label_skeletons_def build_index_def index_row_def empty_index_def
      numeral_3_eq_3 provide_def get_begin_def get_end_def point_filter_def ndims_def upt_rec
      logical_and_def select_rows_def get_points_def resample_parent_def get_point_def
      resample_relative_def np_divide_def in_unit_interval_def List.map_filter_simps dict_update_all_def)

section \<open>The digital line\<close>

lemma rint_bounds: "of_int (rint x) - 1 / 2 \<le> x \<and> x \<le> of_int (rint x) + 1 / 2"
proof -
  define f where "f = \<lfloor>x\<rfloor>"
  have f: "of_int f \<le> x" "x < of_int f + 1"
    unfolding f_def by linarith+
  consider "x - of_int f < 1 / 2" | "1 / 2 < x - of_int f" | "x - of_int f = 1 / 2"
    by linarith
  then show ?thesis
  proof cases
    case 1
    then have "rint x = f" by (simp add: rint_def f_def)
    with f 1 show ?thesis by simp
  next
    case 2
    then have "rint x = f + 1" by (simp add: rint_def f_def)
    with f 2 show ?thesis by simp
  next
    case 3
    then have "rint x = f \<or> rint x = f + 1" by (simp add: rint_def f_def Let_def)
    with f 3 show ?thesis by auto
  qed
qed

lemma rint_of_int [simp]: "rint (of_int z) = z"
  by (simp add: rint_def)

lemma rint_between:
  assumes "of_int lo \<le> x" "x \<le> of_int hi"
  shows "lo \<le> rint x \<and> rint x \<le> hi"
proof -
  from rint_bounds [of x] assms
  have "(of_int lo :: rat) < of_int (rint x) + 1" "(of_int (rint x) :: rat) < of_int hi + 1"
    by linarith+
  then have "lo < rint x + 1" "rint x < hi + 1"
    by (metis of_int_1 of_int_add of_int_less_iff)+
  then show ?thesis by simp
qed

lemma rint_step:
  assumes "\<bar>c\<bar> < 1 \<or> (\<exists>z. x = of_int z) \<and> (c = 1 \<or> c = - 1)"
  shows "\<bar>rint (x + c) - rint x\<bar> \<le> 1"
  using assms
proof
  assume c: "\<bar>c\<bar> < 1"
  from rint_bounds [of x] rint_bounds [of "x + c"] c
  have "(of_int (rint (x + c)) :: rat) < of_int (rint x) + 2"
       "(of_int (rint x) :: rat) < of_int (rint (x + c)) + 2"
    by linarith+
  then have "rint (x + c) < rint x + 2" "rint x < rint (x + c) + 2"
    by (metis of_int_numeral of_int_add of_int_less_iff)+
  then show ?thesis by simp
next
  assume "(\<exists>z. x = of_int z) \<and> (c = 1 \<or> c = - 1)"
  then obtain z where x: "x = of_int z" and c: "c = 1 \<or> c = - 1" by blast
  from c show ?thesis
  proof
    assume "c = 1"
    then have "x + c = of_int (z + 1)" by (simp add: x)
    then show ?thesis by (simp add: x del: of_int_add)
  next
    assume "c = - 1"
    then have "x + c = of_int (z - 1)" by (simp add: x)
    then show ?thesis by (simp add: x del: of_int_diff)
  qed
qed

lemma amax_abs_ge: "x \<in> set v \<Longrightarrow> \<bar>x\<bar> \<le> amax_abs v"
  by (simp add: amax_abs_def)

lemma amax_abs_in: "v \<noteq> [] \<Longrightarrow> \<exists>x\<in>set v. \<bar>x\<bar> = amax_abs v"
proof -
  assume "v \<noteq> []"
  then have "Max (set (map abs v)) \<in> set (map abs v)"
    by (intro Max_in) simp_all
  then show ?thesis by (auto simp: amax_abs_def)
qed

lemma amax_abs_zero_iff: "v \<noteq> [] \<Longrightarrow> amax_abs v = 0 \<longleftrightarrow> (\<forall>x\<in>set v. x = 0)"
  using amax_abs_ge [of _ v] amax_abs_in [of v] by fastforce

lemma axis_val_0 [simp]: "axis_val sd ed M 0 = sd"
  by (simp add: axis_val_def)

lemma axis_val_M: "M \<noteq> 0 \<Longrightarrow> axis_val sd ed M M = ed"
proof -
  assume "M \<noteq> 0"
  then have "(of_int sd :: rat) + of_int (ed - sd) / of_int M * of_int M = of_int ed"
    by simp
  then show ?thesis by (simp only: axis_val_def rint_of_int)
qed

lemma axis_val_dominant_step:
  assumes "0 < M" "\<bar>ed - sd\<bar> = M"
  shows "axis_val sd ed M (k + 1) \<noteq> axis_val sd ed M k"
proof -
  from assms have "ed - sd = M \<or> ed - sd = - M" by auto
  then show ?thesis
  proof
    assume d: "ed - sd = M"
    with assms(1) have "\<And>j. (of_int sd :: rat) + of_int (ed - sd) / of_int M * of_int j = of_int (sd + j)"
      by simp
    then have "\<And>j. axis_val sd ed M j = sd + j" by (simp only: axis_val_def rint_of_int)
    then show ?thesis by simp
  next
    assume d: "ed - sd = - M"
    with assms(1) have "\<And>j. (of_int sd :: rat) + of_int (ed - sd) / of_int M * of_int j = of_int (sd - j)"
      by simp
    then have "\<And>j. axis_val sd ed M j = sd - j" by (simp only: axis_val_def rint_of_int)
    then show ?thesis by simp
  qed
qed

lemma axis_val_step:
  assumes "0 < M" "\<bar>ed - sd\<bar> \<le> M"
  shows "\<bar>axis_val sd ed M (k + 1) - axis_val sd ed M k\<bar> \<le> 1"
proof -
  define c :: rat where "c = of_int (ed - sd) / of_int M"
  define x :: rat where "x = of_int sd + c * of_int k"
  have xc: "of_int sd + c * of_int (k + 1) = x + c"
    by (simp add: x_def algebra_simps)
  have "\<bar>c\<bar> < 1 \<or> (\<exists>z. x = of_int z) \<and> (c = 1 \<or> c = - 1)"
  proof (cases "\<bar>ed - sd\<bar> < M")
    case True
    then have "\<bar>of_int (ed - sd) :: rat\<bar> < of_int M"
      by (metis of_int_abs of_int_less_iff)
    with assms(1) have "\<bar>c\<bar> < 1" by (simp add: c_def)
    then show ?thesis ..
  next
    case False
    with assms(2) have "ed - sd = M \<or> ed - sd = - M" by auto
    then have "(of_int (ed - sd) :: rat) = of_int M \<or> (of_int (ed - sd) :: rat) = - of_int M"
      by (metis of_int_minus)
    then have "c = 1 \<or> c = - 1"
      using assms(1) unfolding c_def by auto
    moreover from this have "\<exists>z. x = of_int z"
    proof
      assume "c = 1"
      then have "x = of_int (sd + k)" by (simp add: x_def)
      then show ?thesis ..
    next
      assume "c = - 1"
      then have "x = of_int (sd - k)" by (simp add: x_def)
      then show ?thesis ..
    qed
    ultimately show ?thesis by blast
  qed
  then have "\<bar>rint (x + c) - rint x\<bar> \<le> 1" by (rule rint_step)
  then show ?thesis
    unfolding axis_val_def c_def [symmetric] xc x_def [symmetric] .
qed

lemma axis_val_between:
  assumes "0 < M" "0 \<le> k" "k \<le> M"
  shows "min sd ed \<le> axis_val sd ed M k \<and> axis_val sd ed M k \<le> max sd ed"
proof -
  define t :: rat where "t = of_int k / of_int M"
  have t: "0 \<le> t" "t \<le> 1"
    using assms by (simp_all add: t_def)
  define x :: rat where "x = of_int sd + of_int (ed - sd) / of_int M * of_int k"
  have x: "x = of_int sd + of_int (ed - sd) * t"
    by (simp add: x_def t_def)
  define a :: rat where "a = of_int (ed - sd)"
  have xa: "x = of_int sd + a * t" "of_int ed = of_int sd + a"
    by (simp_all add: x a_def)
  have "of_int (min sd ed) \<le> x \<and> x \<le> of_int (max sd ed)"
  proof (cases "sd \<le> ed")
    case True
    then have "0 \<le> a" by (simp add: a_def)
    with t have "0 \<le> a * t" "a * t \<le> a"
      by (simp_all add: mult_left_le)
    with True xa show ?thesis by (simp add: min_def max_def)
  next
    case False
    then have "0 \<le> - a" by (simp add: a_def)
    with t have "0 \<le> (- a) * t" "(- a) * t \<le> - a"
      by (simp_all only: mult_nonneg_nonneg mult_left_le)
    then have "a * t \<le> 0" "a \<le> a * t" by simp_all
    with False xa show ?thesis by (simp add: min_def max_def)
  qed
  then show ?thesis
    unfolding axis_val_def x_def [symmetric] by (intro rint_between) simp_all
qed

lemma amax_abs_nonneg: "v \<noteq> [] \<Longrightarrow> 0 \<le> amax_abs v"
  using amax_abs_in [of v] by auto

lemma delta_mem:
  assumes "length s = length e" "d < length s"
  shows "e ! d - s ! d \<in> set (map2 (-) e s)"
proof -
  have "d < length (map2 (-) e s)" using assms by simp
  then have "map2 (-) e s ! d \<in> set (map2 (-) e s)" by (rule nth_mem)
  moreover have "map2 (-) e s ! d = e ! d - s ! d" using assms by simp
  ultimately show ?thesis by simp
qed

lemma amax_abs_delta_ge:
  assumes "length s = length e" "d < length s"
  shows "\<bar>e ! d - s ! d\<bar> \<le> amax_abs (map2 (-) e s)"
  by (rule amax_abs_ge) (rule delta_mem [OF assms])

lemma amax_abs_delta_pos:
  assumes "length s = length e" "s \<noteq> e"
  shows "0 < amax_abs (map2 (-) e s)"
proof -
  from assms obtain d where d: "d < length s" "s ! d \<noteq> e ! d"
    by (metis nth_equalityI)
  from amax_abs_delta_ge [OF assms(1) d(1)] d(2) show ?thesis by linarith
qed

lemma amax_abs_delta_attained:
  assumes "length s = length e" "s \<noteq> e"
  shows "\<exists>d<length s. \<bar>e ! d - s ! d\<bar> = amax_abs (map2 (-) e s)"
proof -
  from assms have "s \<noteq> []" by auto
  with assms(1) have "map2 (-) e s \<noteq> []" by (cases s; cases e) simp_all
  from amax_abs_in [OF this] obtain x
    where x: "x \<in> set (map2 (-) e s)" "\<bar>x\<bar> = amax_abs (map2 (-) e s)" by blast
  from x(1) obtain d where d: "d < length (map2 (-) e s)" "map2 (-) e s ! d = x"
    by (auto simp: in_set_conv_nth)
  from d assms(1) have "d < length s" "e ! d - s ! d = x" by simp_all
  with x(2) show ?thesis by blast
qed

lemma line_point_length [simp]: "length s = length e \<Longrightarrow> length (line_point s e k) = length s"
  by (simp add: line_point_def)

lemma line_point_nth:
  "length s = length e \<Longrightarrow> d < length s \<Longrightarrow>
     line_point s e k ! d = axis_val (s ! d) (e ! d) (amax_abs (map2 (-) e s)) k"
  by (simp add: line_point_def)

lemma step_row:
  "length s = length e \<Longrightarrow>
   map2 (\<lambda>a c. rint (of_int a + c * of_int k)) s (map (\<lambda>x. of_int x / of_int M) (map2 (-) e s))
     = map2 (\<lambda>a b. axis_val a b M k) s e"
  by (induction s e rule: list_induct2) (simp_all add: axis_val_def)

lemma bresenhamline_eq:
  assumes "length s = length e" "s \<noteq> e"
  shows "bresenhamline s e (- 1) = map (line_point s e) [1..amax_abs (map2 (-) e s)]"
proof -
  have "amax_abs (map2 (-) e s) \<noteq> 0"
    using amax_abs_delta_pos [OF assms] by simp
  moreover have "\<And>k. map2 (\<lambda>a c. rint (of_int a + c * of_int k)) s
            (map (\<lambda>x. of_int x / of_int (amax_abs (map2 (-) e s))) (map2 (-) e s)) = line_point s e k"
    by (simp only: step_row [OF assms(1)] line_point_def)
  ultimately show ?thesis
    unfolding bresenhamline_def bresenhamline_nslope_def Let_def by simp
qed

lemma line_point_0: "length s = length e \<Longrightarrow> line_point s e 0 = s"
  by (induction s e rule: list_induct2) (simp_all add: line_point_def)

lemma line_point_M:
  assumes "length s = length e" "s \<noteq> e"
  shows "line_point s e (amax_abs (map2 (-) e s)) = e"
proof -
  have "amax_abs (map2 (-) e s) \<noteq> 0"
    using amax_abs_delta_pos [OF assms] by simp
  then show ?thesis
    using assms(1) by (intro nth_equalityI) (simp_all add: line_point_nth axis_val_M)
qed

lemma path_eq:
  assumes "length s = length e" "s \<noteq> e"
  shows "s # bresenhamline s e (- 1) = map (line_point s e) [0..amax_abs (map2 (-) e s)]"
proof -
  have "0 \<le> amax_abs (map2 (-) e s)"
    using amax_abs_delta_pos [OF assms] by simp
  then have "[0..amax_abs (map2 (-) e s)] = 0 # [1..amax_abs (map2 (-) e s)]"
    by (simp add: upto_rec1)
  then show ?thesis
    by (simp add: bresenhamline_eq [OF assms] line_point_0 [OF assms(1)])
qed

lemma line_point_adjacent:
  assumes "length s = length e" "s \<noteq> e"
  shows "adjacent_voxels (line_point s e k) (line_point s e (k + 1))"
proof -
  let ?M = "amax_abs (map2 (-) e s)"
  have M: "0 < ?M" by (rule amax_abs_delta_pos [OF assms])
  obtain d where d: "d < length s" "\<bar>e ! d - s ! d\<bar> = ?M"
    using amax_abs_delta_attained [OF assms] by blast
  have "line_point s e k ! d \<noteq> line_point s e (k + 1) ! d"
    using axis_val_dominant_step [OF M d(2), of k] d(1) assms(1)
    by (simp add: line_point_nth)
  then have ne: "line_point s e k \<noteq> line_point s e (k + 1)" by auto
  have "\<bar>line_point s e k ! i - line_point s e (k + 1) ! i\<bar> \<le> 1" if "i < length s" for i
    using axis_val_step [OF M amax_abs_delta_ge [OF assms(1) that], of k] that assms(1)
    by (simp add: line_point_nth abs_minus_commute)
  with ne show ?thesis
    using assms(1) by (simp add: adjacent_voxels_def)
qed

lemma connected_path_upto:
  assumes "\<And>k. adjacent_voxels (f k) (f (k + 1))"
  shows "connected_path (map f [i..j])"
proof (induction i j rule: upto.induct)
  case (1 i j)
  show ?case
  proof (cases "i \<le> j")
    case False
    then show ?thesis by simp
  next
    case True
    show ?thesis
    proof (cases "i + 1 \<le> j")
      case False
      with True have "[i..j] = [i]" by (simp add: upto_rec1)
      then show ?thesis by simp
    next
      case t: True
      then obtain rest where r: "[i + 1..j] = (i + 1) # rest"
        by (simp add: upto_rec1)
      from True have "[i..j] = i # [i + 1..j]"
        by (simp add: upto_rec1)
      with r have "[i..j] = i # (i + 1) # rest" by simp
      moreover have "connected_path (map f [i + 1..j])"
        using "1.IH" True by simp
      ultimately show ?thesis
        using assms [of i] r by simp
    qed
  qed
qed

lemma line_connected:
  assumes "length s = length e" "s \<noteq> e"
  shows "connected_path (s # bresenhamline s e (- 1))"
  unfolding path_eq [OF assms]
  by (rule connected_path_upto) (rule line_point_adjacent [OF assms])

lemma line_last:
  assumes "length s = length e" "s \<noteq> e"
  shows "last (bresenhamline s e (- 1)) = e"
proof -
  let ?M = "amax_abs (map2 (-) e s)"
  have M: "1 \<le> ?M" using amax_abs_delta_pos [OF assms] by simp
  then have "[1..?M] \<noteq> []" by simp
  moreover have "last [1..?M] = ?M"
    using M by (simp add: upto_rec2)
  ultimately show ?thesis
    by (simp add: bresenhamline_eq [OF assms] last_map line_point_M [OF assms])
qed

lemma line_length:
  assumes "length s = length e" "s \<noteq> e"
  shows "length (bresenhamline s e (- 1)) = nat (amax_abs (map2 (-) e s))"
  by (simp add: bresenhamline_eq [OF assms])

lemma set_cell_in_bounds:
  assumes "length v = 3" "\<forall>d<3. 0 \<le> v ! d \<and> v ! d < shp ! d"
  shows "set_cell shp v cells = Inr (insert v cells)"
proof -
  obtain a b c where v: "v = [a, b, c]"
    using assms(1) by (auto simp: length_Suc_conv numeral_3_eq_3)
  from assms(2) show ?thesis
    by (simp add: v all_less_3 set_cell_def np_index_def)
qed

lemma set_cells_in_bounds:
  assumes "\<forall>v\<in>set vs. length v = 3 \<and> (\<forall>d<3. 0 \<le> v ! d \<and> v ! d < shp ! d)"
  shows "set_cells shp vs cells = Inr (cells \<union> set vs)"
  using assms
proof (induction vs arbitrary: cells)
  case Nil
  then show ?case by simp
next
  case (Cons v vs)
  then have "set_cell shp v cells = Inr (insert v cells)"
    by (intro set_cell_in_bounds) simp_all
  with Cons show ?case by simp
qed

lemma line_point_in_bounds:
  assumes "length s = 3" "length e = 3" "s \<noteq> e"
    and "\<forall>d<3. 0 \<le> s ! d \<and> s ! d < shp ! d \<and> 0 \<le> e ! d \<and> e ! d < shp ! d"
    and "0 \<le> k" "k \<le> amax_abs (map2 (-) e s)"
  shows "\<forall>d<3. 0 \<le> line_point s e k ! d \<and> line_point s e k ! d < shp ! d"
proof (intro allI impI)
  fix d :: nat assume d: "d < 3"
  have len: "length s = length e" using assms(1,2) by simp
  have M: "0 < amax_abs (map2 (-) e s)" by (rule amax_abs_delta_pos [OF len assms(3)])
  from axis_val_between [OF M assms(5,6), of "s ! d" "e ! d"]
  have "min (s ! d) (e ! d) \<le> line_point s e k ! d" "line_point s e k ! d \<le> max (s ! d) (e ! d)"
    using d assms(1) len by (simp_all add: line_point_nth)
  moreover from assms(4) d have "0 \<le> s ! d" "s ! d < shp ! d" "0 \<le> e ! d" "e ! d < shp ! d"
    by simp_all
  ultimately show "0 \<le> line_point s e k ! d \<and> line_point s e k ! d < shp ! d"
    by (simp add: min_def max_def split: if_splits)
qed

lemma rasterize_in_bounds:
  assumes "length s = 3" "length e = 3" "s \<noteq> e"
    and "\<forall>d<3. 0 \<le> s ! d \<and> s ! d < shp ! d \<and> 0 \<le> e ! d \<and> e ! d < shp ! d"
  shows "rasterize_line_segment shp s e cells = Inr (cells \<union> set (s # bresenhamline s e (- 1)))"
proof -
  have len: "length s = length e" using assms(1,2) by simp
  have "\<forall>v\<in>set (bresenhamline s e (- 1)). length v = 3 \<and> (\<forall>d<3. 0 \<le> v ! d \<and> v ! d < shp ! d)"
  proof
    fix v assume "v \<in> set (bresenhamline s e (- 1))"
    then obtain k where k: "1 \<le> k" "k \<le> amax_abs (map2 (-) e s)" "v = line_point s e k"
      unfolding bresenhamline_eq [OF len assms(3)] by auto
    from k(1) have "0 \<le> k" by simp
    from line_point_in_bounds [OF assms this k(2)] show "length v = 3 \<and> (\<forall>d<3. 0 \<le> v ! d \<and> v ! d < shp ! d)"
      using k(3) len assms(1) by simp
  qed
  then have 1: "set_cells shp (bresenhamline s e (- 1)) cells = Inr (cells \<union> set (bresenhamline s e (- 1)))"
    by (rule set_cells_in_bounds)
  have 2: "set_cell shp s c = Inr (insert s c)" for c
    using assms(1,4) by (intro set_cell_in_bounds) simp_all
  show ?thesis
    by (simp add: rasterize_line_segment_def Let_def 1 2)
qed

lemma nslope_normalised:
  assumes "length s = length e" "s \<noteq> e"
  shows "bresenhamline_nslope (map2 (-) e s)
           = map (\<lambda>x. of_int x / of_int (amax_abs (map2 (-) e s))) (map2 (-) e s)"
    and "\<forall>d<length s. \<bar>bresenhamline_nslope (map2 (-) e s) ! d\<bar> \<le> 1"
    and "\<exists>d<length s. \<bar>bresenhamline_nslope (map2 (-) e s) ! d\<bar> = 1"
proof -
  let ?M = "amax_abs (map2 (-) e s)"
  have M: "0 < ?M" by (rule amax_abs_delta_pos [OF assms])
  then show eq: "bresenhamline_nslope (map2 (-) e s) = map (\<lambda>x. of_int x / of_int ?M) (map2 (-) e s)"
    by (simp add: bresenhamline_nslope_def Let_def)
  have nth: "bresenhamline_nslope (map2 (-) e s) ! d = of_int (e ! d - s ! d) / of_int ?M"
    if "d < length s" for d
    unfolding eq using that assms(1) by simp
  show "\<forall>d<length s. \<bar>bresenhamline_nslope (map2 (-) e s) ! d\<bar> \<le> 1"
  proof (intro allI impI)
    fix d assume d: "d < length s"
    from amax_abs_delta_ge [OF assms(1) d] have "\<bar>of_int (e ! d - s ! d) :: rat\<bar> \<le> of_int ?M"
      by (metis of_int_abs of_int_le_iff)
    with M show "\<bar>bresenhamline_nslope (map2 (-) e s) ! d\<bar> \<le> 1"
      unfolding nth [OF d] by (simp del: of_int_diff)
  qed
  from amax_abs_delta_attained [OF assms] obtain d
    where d: "d < length s" "\<bar>e ! d - s ! d\<bar> = ?M" by blast
  then have "\<bar>of_int (e ! d - s ! d) :: rat\<bar> = of_int ?M"
    by (metis of_int_abs)
  with M have "\<bar>bresenhamline_nslope (map2 (-) e s) ! d\<bar> = 1"
    unfolding nth [OF d(1)] by (simp del: of_int_diff)
  with d(1) show "\<exists>d<length s. \<bar>bresenhamline_nslope (map2 (-) e s) ! d\<bar> = 1" by blast
qed



section \<open>The labeling pass\<close>

subsection \<open>The index built from the table\<close>

lemma foldl_index_sources:
  "sources (foldl index_row g rows) = sources g @ roots rows"
  by (induction rows arbitrary: g) (simp_all add: roots_def index_row_def)

lemma foldl_index_ptc:
  "parent_to_children (foldl index_row g rows) p =
     (case parent_to_children g p of
        None \<Rightarrow> if kids rows p = [] then None else Some (kids rows p)
      | Some cs \<Rightarrow> Some (cs @ kids rows p))"
proof (induction rows arbitrary: g)
  case Nil
  then show ?case by (simp add: kids_def split: option.splits)
next
  case (Cons r rows)
  show ?case
    by (simp add: Cons.IH) (simp add: index_row_def kids_def split: option.splits)
qed

lemma build_index_sources: "sources (build_index rows) = roots rows"
  by (simp add: build_index_def foldl_index_sources empty_index_def)

lemma build_index_ptc:
  "parent_to_children (build_index rows) p = (if kids rows p = [] then None else Some (kids rows p))"
  by (simp add: build_index_def foldl_index_ptc empty_index_def)

subsection \<open>Rooted points and subtrees\<close>

lemma kids_set: "set (kids rows p) = {c. (c, p) \<in> edge_rel rows}"
  by (auto simp: kids_def edge_rel_def)

lemma root_mem: "r \<in> set rows \<Longrightarrow> point_id r = parent_id r \<Longrightarrow> point_id r \<in> set (roots rows)"
  unfolding roots_def set_map set_filter by (rule imageI) blast

lemma roots_set: "set (roots rows) = {point_id r | r. r \<in> set rows \<and> point_id r = parent_id r}"
proof (intro set_eqI iffI)
  fix s assume "s \<in> set (roots rows)"
  then show "s \<in> {point_id r | r. r \<in> set rows \<and> point_id r = parent_id r}"
    unfolding roots_def set_map set_filter by blast
next
  fix s assume "s \<in> {point_id r | r. r \<in> set rows \<and> point_id r = parent_id r}"
  then show "s \<in> set (roots rows)" using root_mem by blast
qed

lemma kids_distinct: "distinct (map point_id rows) \<Longrightarrow> distinct (kids rows p)"
  by (simp add: kids_def distinct_map_filter)

lemma roots_distinct: "distinct (map point_id rows) \<Longrightarrow> distinct (roots rows)"
  by (simp add: roots_def distinct_map_filter)

lemma same_id_same_row:
  "distinct (map point_id rows) \<Longrightarrow> r \<in> set rows \<Longrightarrow> r' \<in> set rows \<Longrightarrow> point_id r = point_id r' \<Longrightarrow> r = r'"
  by (meson distinct_map inj_onD)

lemma edge_single_valued: "distinct (map point_id rows) \<Longrightarrow> single_valued (edge_rel rows)"
  unfolding single_valued_def edge_rel_def by (auto dest: same_id_same_row)

lemma root_no_edge:
  "distinct (map point_id rows) \<Longrightarrow> s \<in> set (roots rows) \<Longrightarrow> (s, x) \<notin> edge_rel rows"
  unfolding roots_set edge_rel_def by (auto dest: same_id_same_row)

lemma edge_child_rooted:
  "rooted rows p \<Longrightarrow> (c, p) \<in> edge_rel rows \<Longrightarrow> rooted rows c"
  unfolding edge_rel_def by (auto intro: rooted.step)

lemma rooted_in_ids: "rooted rows q \<Longrightarrow> q \<in> point_id ` set rows"
  by (induction rule: rooted.induct) (rule imageI, assumption)+

lemma trancl_first_step:
  assumes "single_valued R" "(a, b) \<in> R" "(a, c) \<in> R\<^sup>+"
  shows "(b, c) \<in> R\<^sup>*"
proof -
  from assms(3) obtain x where "(a, x) \<in> R" "(x, c) \<in> R\<^sup>*"
    by (meson tranclD)
  with assms(1,2) show ?thesis by (auto dest: single_valuedD)
qed

lemma rooted_acyclic:
  assumes d: "distinct (map point_id rows)"
  shows "rooted rows c \<Longrightarrow> (c, c) \<notin> (edge_rel rows)\<^sup>+"
proof (induction rule: rooted.induct)
  case (root r)
  then have "point_id r \<in> set (roots rows)" by (rule root_mem)
  then have "\<And>x. (point_id r, x) \<notin> edge_rel rows" by (rule root_no_edge [OF d])
  then show ?case by (meson tranclD)
next
  case (step r)
  show ?case
  proof
    assume cyc: "(point_id r, point_id r) \<in> (edge_rel rows)\<^sup>+"
    have e: "(point_id r, parent_id r) \<in> edge_rel rows"
      using step.hyps(1,2) by (auto simp: edge_rel_def)
    from trancl_first_step [OF edge_single_valued [OF d] e cyc]
    have "(parent_id r, point_id r) \<in> (edge_rel rows)\<^sup>*" .
    with e have "(parent_id r, parent_id r) \<in> (edge_rel rows)\<^sup>+" by (meson rtrancl_into_trancl1)
    with step.IH show False by simp
  qed
qed

lemma desc_self [simp]: "p \<in> desc rows p"
  by (simp add: desc_def)

lemma desc_unfold: "desc rows p = insert p (\<Union>c\<in>set (kids rows p). desc rows c)"
proof (intro set_eqI iffI)
  fix q assume "q \<in> desc rows p"
  then have "(q, p) \<in> (edge_rel rows)\<^sup>*" by (simp add: desc_def)
  then show "q \<in> insert p (\<Union>c\<in>set (kids rows p). desc rows c)"
  proof (cases rule: rtranclE)
    case base
    then show ?thesis by simp
  next
    case (step c)
    then show ?thesis by (auto simp: kids_set desc_def)
  qed
next
  fix q assume "q \<in> insert p (\<Union>c\<in>set (kids rows p). desc rows c)"
  then show "q \<in> desc rows p"
    by (auto simp: kids_set desc_def intro: rtrancl_into_rtrancl)
qed

lemma parent_not_in_desc:
  assumes "distinct (map point_id rows)" "rooted rows p" "(c, p) \<in> edge_rel rows"
  shows "p \<notin> desc rows c"
proof
  assume "p \<in> desc rows c"
  then have "(p, c) \<in> (edge_rel rows)\<^sup>*" by (simp add: desc_def)
  with assms(3) have "(c, c) \<in> (edge_rel rows)\<^sup>+" by (meson rtrancl_into_trancl2)
  moreover have "rooted rows c" by (rule edge_child_rooted [OF assms(2,3)])
  ultimately show False using rooted_acyclic [OF assms(1)] by blast
qed

lemma siblings_disjoint:
  assumes d: "distinct (map point_id rows)" and p: "rooted rows p"
    and c: "(c, p) \<in> edge_rel rows" "(c', p) \<in> edge_rel rows" "c \<noteq> c'"
  shows "desc rows c \<inter> desc rows c' = {}"
proof (rule ccontr)
  assume "desc rows c \<inter> desc rows c' \<noteq> {}"
  then obtain q where q: "(q, c) \<in> (edge_rel rows)\<^sup>*" "(q, c') \<in> (edge_rel rows)\<^sup>*"
    by (auto simp: desc_def)
  have sv: "single_valued (edge_rel rows)" by (rule edge_single_valued [OF d])
  have *: False if "(a, b) \<in> (edge_rel rows)\<^sup>*" "a \<noteq> b" "(a, p) \<in> edge_rel rows" "(b, p) \<in> edge_rel rows" for a b
  proof -
    from that(1,2) have "(a, b) \<in> (edge_rel rows)\<^sup>+" by (meson rtranclD)
    from trancl_first_step [OF sv that(3) this] have "(p, b) \<in> (edge_rel rows)\<^sup>*" .
    then have "p \<in> desc rows b" by (simp add: desc_def)
    with parent_not_in_desc [OF d p that(4)] show False by simp
  qed
  from single_valued_confluent [OF sv q] have "(c, c') \<in> (edge_rel rows)\<^sup>* \<or> (c', c) \<in> (edge_rel rows)\<^sup>*" .
  then show False using * c by blast
qed

lemma roots_disjoint:
  assumes d: "distinct (map point_id rows)"
    and s: "s \<in> set (roots rows)" "s' \<in> set (roots rows)" "s \<noteq> s'"
  shows "desc rows s \<inter> desc rows s' = {}"
proof (rule ccontr)
  assume "desc rows s \<inter> desc rows s' \<noteq> {}"
  then obtain q where q: "(q, s) \<in> (edge_rel rows)\<^sup>*" "(q, s') \<in> (edge_rel rows)\<^sup>*"
    by (auto simp: desc_def)
  have sv: "single_valued (edge_rel rows)" by (rule edge_single_valued [OF d])
  have *: False if "(a, b) \<in> (edge_rel rows)\<^sup>*" "a \<noteq> b" "a \<in> set (roots rows)" for a b
  proof -
    from that(1,2) obtain x where "(a, x) \<in> edge_rel rows" by (meson converse_rtranclE)
    with root_no_edge [OF d that(3)] show False by simp
  qed
  from single_valued_confluent [OF sv q] have "(s, s') \<in> (edge_rel rows)\<^sup>* \<or> (s', s) \<in> (edge_rel rows)\<^sup>*" .
  then show False using * s by blast
qed

lemma rooted_iff_desc_root:
  "rooted rows q \<longleftrightarrow> (\<exists>s\<in>set (roots rows). q \<in> desc rows s)"
proof
  assume "rooted rows q"
  then show "\<exists>s\<in>set (roots rows). q \<in> desc rows s"
  proof (induction rule: rooted.induct)
    case (root r)
    then have "point_id r \<in> set (roots rows)" by (rule root_mem)
    then show ?case by (meson desc_self)
  next
    case (step r)
    then obtain s where s: "s \<in> set (roots rows)" "(parent_id r, s) \<in> (edge_rel rows)\<^sup>*"
      by (auto simp: desc_def)
    have "(point_id r, parent_id r) \<in> edge_rel rows"
      using step.hyps(1,2) by (auto simp: edge_rel_def)
    with s(2) have "(point_id r, s) \<in> (edge_rel rows)\<^sup>*" by (meson converse_rtrancl_into_rtrancl)
    with s(1) show ?case by (auto simp: desc_def)
  qed
next
  assume "\<exists>s\<in>set (roots rows). q \<in> desc rows s"
  then obtain s where s: "s \<in> set (roots rows)" "(q, s) \<in> (edge_rel rows)\<^sup>*"
    by (auto simp: desc_def)
  from s(1) have "rooted rows s" by (auto simp: roots_set intro: rooted.root)
  with s(2) show "rooted rows q"
    by (induction rule: converse_rtrancl_induct) (auto intro: edge_child_rooted)
qed

subsection \<open>The traversal returns\<close>

lemma card_unlabelled_insert:
  assumes "finite U" "p \<in> U" "m p = None" "card (U - dom m) < Suc n"
  shows "card (U - dom (m(p \<mapsto> l))) < n"
proof -
  have "p \<in> U - dom m" using assms(2,3) by (simp add: domIff)
  moreover have "U - dom (m(p \<mapsto> l)) = (U - dom m) - {p}" by auto
  moreover have "finite (U - dom m)" using assms(1) by simp
  ultimately have "card (U - dom (m(p \<mapsto> l))) = card (U - dom m) - 1"
    by (simp add: card_Diff_singleton)
  moreover have "0 < card (U - dom m)"
    using \<open>p \<in> U - dom m\<close> \<open>finite (U - dom m)\<close> by (auto simp: card_gt_0_iff)
  ultimately show ?thesis using assms(4) by linarith
qed

lemma card_unlabelled_mono:
  assumes "finite U" "dom m \<subseteq> dom m'" "card (U - dom m) < n"
  shows "card (U - dom m') < n"
proof -
  have "U - dom m' \<subseteq> U - dom m" using assms(2) by auto
  then have "card (U - dom m') \<le> card (U - dom m)"
    using assms(1) by (intro card_mono) simp_all
  with assms(3) show ?thesis by linarith
qed

lemma grows_trans:
  assumes "dom m \<subseteq> dom m1" "\<forall>m'. r = Inr m' \<longrightarrow> dom m1 \<subseteq> dom m'"
  shows "\<forall>m'. r = Inr m' \<longrightarrow> dom m \<subseteq> dom m'"
proof (intro allI impI)
  fix m' assume "r = Inr m'"
  with assms(2) have "dom m1 \<subseteq> dom m'" by simp
  with assms(1) show "dom m \<subseteq> dom m'" by (rule order_trans)
qed

lemma label_children_returns:
  assumes fin: "finite U"
    and sk: "\<And>p l m. p \<in> U \<Longrightarrow> card (U - dom m) < n \<Longrightarrow>
               \<exists>r. label_skeleton n ptc p l m = Some r \<and> (\<forall>m'. r = Inr m' \<longrightarrow> dom m \<subseteq> dom m')"
  shows "set cs \<subseteq> U \<Longrightarrow> card (U - dom m) < n \<Longrightarrow>
           \<exists>r. label_children n ptc cs l m = Some r \<and> (\<forall>m'. r = Inr m' \<longrightarrow> dom m \<subseteq> dom m')"
proof (induction cs arbitrary: m)
  case Nil
  then show ?case by simp
next
  case (Cons c cs)
  from Cons.prems have c: "c \<in> U" by simp
  from sk [OF c Cons.prems(2)] obtain r
    where r: "label_skeleton n ptc c l m = Some r" "\<forall>m'. r = Inr m' \<longrightarrow> dom m \<subseteq> dom m'"
    by blast
  show ?case
  proof (cases r)
    case (Inl e)
    with r(1) show ?thesis by simp
  next
    case (Inr m1)
    with r(2) have sub: "dom m \<subseteq> dom m1" by simp
    from card_unlabelled_mono [OF fin sub Cons.prems(2)] Cons.prems(1)
    obtain r2 where r2: "label_children n ptc cs l m1 = Some r2" "\<forall>m'. r2 = Inr m' \<longrightarrow> dom m1 \<subseteq> dom m'"
      using Cons.IH [of m1] by auto
    have "label_children n ptc (c # cs) l m = Some r2"
      using r(1) Inr r2(1) by simp
    moreover have "\<forall>m'. r2 = Inr m' \<longrightarrow> dom m \<subseteq> dom m'"
      using sub r2(2) by (rule grows_trans)
    ultimately show ?thesis by blast
  qed
qed

lemma label_skeleton_returns:
  assumes fin: "finite U"
    and closed: "\<forall>q cs. ptc q = Some cs \<longrightarrow> set cs \<subseteq> U"
  shows "p \<in> U \<Longrightarrow> card (U - dom m) < n \<Longrightarrow>
           \<exists>r. label_skeleton n ptc p l m = Some r \<and> (\<forall>m'. r = Inr m' \<longrightarrow> dom m \<subseteq> dom m')"
proof (induction n arbitrary: p l m)
  case 0
  then show ?case by simp
next
  case (Suc n)
  show ?case
  proof (cases "m p")
    case (Some a)
    then show ?thesis by simp
  next
    case None
    let ?m1 = "m(p \<mapsto> l)"
    have card1: "card (U - dom ?m1) < n"
      by (rule card_unlabelled_insert [OF fin Suc.prems(1) None Suc.prems(2)])
    have sub: "dom m \<subseteq> dom ?m1" by auto
    show ?thesis
    proof (cases "ptc p")
      case n: None
      have "label_skeleton (Suc n) ptc p l m = Some (Inr ?m1)"
        using None n by simp
      with sub show ?thesis by blast
    next
      case (Some cs)
      have cs: "set cs \<subseteq> U" using closed Some by blast
      show ?thesis
      proof (cases "length cs = 1")
        case True
        then have "hd cs \<in> set cs" by (cases cs) simp_all
        with cs have "hd cs \<in> U" by blast
        from Suc.IH [OF this card1] obtain r
          where r: "label_skeleton n ptc (hd cs) l ?m1 = Some r" "\<forall>m'. r = Inr m' \<longrightarrow> dom ?m1 \<subseteq> dom m'"
          by blast
        have "label_skeleton (Suc n) ptc p l m = Some r"
          using None Some True r(1) by simp
        moreover have "\<forall>m'. r = Inr m' \<longrightarrow> dom m \<subseteq> dom m'"
          using sub r(2) by (rule grows_trans)
        ultimately show ?thesis by blast
      next
        case False
        from label_children_returns [OF fin Suc.IH cs card1] obtain r
          where r: "label_children n ptc cs l ?m1 = Some r" "\<forall>m'. r = Inr m' \<longrightarrow> dom ?m1 \<subseteq> dom m'"
          by blast
        have "label_skeleton (Suc n) ptc p l m = Some r"
          using None Some False r(1) by simp
        moreover have "\<forall>m'. r = Inr m' \<longrightarrow> dom m \<subseteq> dom m'"
          using sub r(2) by (rule grows_trans)
        ultimately show ?thesis by blast
      qed
    qed
  qed
qed

lemma label_sources_returns:
  assumes fin: "finite U"
    and closed: "\<forall>q cs. ptc q = Some cs \<longrightarrow> set cs \<subseteq> U"
  shows "set ss \<subseteq> U \<Longrightarrow> card (U - dom m) < n \<Longrightarrow> \<exists>r. label_sources n ptc ss l m = Some r"
proof (induction ss arbitrary: l m)
  case Nil
  then show ?case by simp
next
  case (Cons s ss)
  from Cons.prems have s: "s \<in> U" by simp
  from label_skeleton_returns [OF fin closed s Cons.prems(2)] obtain r
    where r: "label_skeleton n ptc s l m = Some r" "\<forall>m'. r = Inr m' \<longrightarrow> dom m \<subseteq> dom m'"
    by blast
  show ?case
  proof (cases r)
    case (Inl e)
    with r(1) show ?thesis by simp
  next
    case (Inr m1)
    with r(2) have "dom m \<subseteq> dom m1" by simp
    from card_unlabelled_mono [OF fin this Cons.prems(2)] Cons.prems(1)
    obtain r2 where "label_sources n ptc ss (l + 1) m1 = Some r2"
      using Cons.IH [of m1 "l + 1"] by auto
    with r(1) Inr show ?thesis by simp
  qed
qed

subsection \<open>The traversal stamps the subtree of its start\<close>

lemma stamp_union: "stamp (stamp m A l) B l = stamp m (A \<union> B) l"
  by (auto simp: stamp_def fun_eq_iff)

lemma upd_stamp: "m(p \<mapsto> l) = stamp m {p} l"
  by (auto simp: stamp_def fun_eq_iff)

lemma label_children_correct:
  assumes d: "distinct (map point_id rows)"
    and sk: "\<And>p l m r. rooted rows p \<Longrightarrow> \<forall>q\<in>desc rows p. m q = None \<Longrightarrow>
               label_skeleton n ptc p l m = Some r \<Longrightarrow> r = Inr (stamp m (desc rows p) l)"
  shows "distinct cs \<Longrightarrow> \<forall>c\<in>set cs. rooted rows c \<Longrightarrow>
         \<forall>c\<in>set cs. \<forall>c'\<in>set cs. c \<noteq> c' \<longrightarrow> desc rows c \<inter> desc rows c' = {} \<Longrightarrow>
         \<forall>c\<in>set cs. \<forall>q\<in>desc rows c. m q = None \<Longrightarrow>
         label_children n ptc cs l m = Some r \<Longrightarrow>
         r = Inr (stamp m (\<Union>c\<in>set cs. desc rows c) l)"
proof (induction cs arbitrary: m)
  case Nil
  then show ?case by (simp add: stamp_def)
next
  case (Cons c cs)
  obtain r1 where r1: "label_skeleton n ptc c l m = Some r1"
    using Cons.prems(5) by (cases "label_skeleton n ptc c l m") simp_all
  have "r1 = Inr (stamp m (desc rows c) l)"
    using Cons.prems(2,4) by (intro sk [OF _ _ r1]) simp_all
  with r1 Cons.prems(5) have rest: "label_children n ptc cs l (stamp m (desc rows c) l) = Some r"
    by simp
  have fresh: "\<forall>c'\<in>set cs. \<forall>q\<in>desc rows c'. stamp m (desc rows c) l q = None"
  proof (intro ballI)
    fix c' q assume c': "c' \<in> set cs" and q: "q \<in> desc rows c'"
    from c' Cons.prems(1) have "c \<noteq> c'" by auto
    with Cons.prems(3) c' have "desc rows c \<inter> desc rows c' = {}" by simp
    with q have "q \<notin> desc rows c" by auto
    moreover from Cons.prems(4) c' q have "m q = None" by simp
    ultimately show "stamp m (desc rows c) l q = None" by (simp add: stamp_def)
  qed
  have "r = Inr (stamp (stamp m (desc rows c) l) (\<Union>c\<in>set cs. desc rows c) l)"
    using Cons.prems(1,2,3) by (intro Cons.IH [OF _ _ _ fresh rest]) simp_all
  then show ?case by (simp add: stamp_union)
qed

lemma label_skeleton_correct:
  assumes d: "distinct (map point_id rows)"
    and ptc: "\<forall>p. ptc p = (if kids rows p = [] then None else Some (kids rows p))"
  shows "rooted rows p \<Longrightarrow> \<forall>q\<in>desc rows p. m q = None \<Longrightarrow>
         label_skeleton n ptc p l m = Some r \<Longrightarrow> r = Inr (stamp m (desc rows p) l)"
proof (induction n arbitrary: p l m r)
  case 0
  then show ?case by simp
next
  case (Suc n)
  from Suc.prems(2) have mp: "m p = None" by simp
  let ?m1 = "m(p \<mapsto> l)"
  have kid_facts: "rooted rows c" "\<forall>q\<in>desc rows c. ?m1 q = None" if "c \<in> set (kids rows p)" for c
  proof -
    from that have e: "(c, p) \<in> edge_rel rows" by (simp add: kids_set)
    show "rooted rows c" by (rule edge_child_rooted [OF Suc.prems(1) e])
    have np: "p \<notin> desc rows c" by (rule parent_not_in_desc [OF d Suc.prems(1) e])
    show "\<forall>q\<in>desc rows c. ?m1 q = None"
    proof
      fix q assume q: "q \<in> desc rows c"
      with that have "q \<in> desc rows p" by (subst desc_unfold) auto
      with Suc.prems(2) have "m q = None" by simp
      moreover from q np have "q \<noteq> p" by auto
      ultimately show "?m1 q = None" by simp
    qed
  qed
  show ?case
  proof (cases "kids rows p = []")
    case True
    then have "ptc p = None" using ptc by simp
    with mp Suc.prems(3) have "r = Inr ?m1" by simp
    moreover have "desc rows p = {p}" using True by (subst desc_unfold) simp
    ultimately show ?thesis by (simp add: upd_stamp)
  next
    case False
    then have p: "ptc p = Some (kids rows p)" using ptc by simp
    show ?thesis
    proof (cases "length (kids rows p) = 1")
      case True
      then obtain c where c: "kids rows p = [c]"
        by (cases "kids rows p") simp_all
      with mp p Suc.prems(3) have run: "label_skeleton n ptc c l ?m1 = Some r" by simp
      have "c \<in> set (kids rows p)" using c by simp
      then have "rooted rows c" "\<forall>q\<in>desc rows c. ?m1 q = None"
        by (rule kid_facts)+
      then have "r = Inr (stamp ?m1 (desc rows c) l)"
        using run by (rule Suc.IH)
      moreover have "desc rows p = insert p (desc rows c)"
        using c by (subst desc_unfold) simp
      ultimately show ?thesis by (simp add: upd_stamp stamp_union)
    next
      case one: False
      with mp p Suc.prems(3) have run: "label_children n ptc (kids rows p) l ?m1 = Some r" by simp
      have disj: "\<forall>c\<in>set (kids rows p). \<forall>c'\<in>set (kids rows p). c \<noteq> c' \<longrightarrow> desc rows c \<inter> desc rows c' = {}"
        using siblings_disjoint [OF d Suc.prems(1)] by (simp add: kids_set)
      have "r = Inr (stamp ?m1 (\<Union>c\<in>set (kids rows p). desc rows c) l)"
        by (rule label_children_correct [OF d Suc.IH kids_distinct [OF d] _ disj _ run])
           (use kid_facts in blast)+
      moreover have "desc rows p = insert p (\<Union>c\<in>set (kids rows p). desc rows c)"
        by (rule desc_unfold)
      ultimately show ?thesis by (simp add: upd_stamp stamp_union)
    qed
  qed
qed

lemma label_sources_correct:
  assumes d: "distinct (map point_id rows)"
    and ptc: "\<forall>p. ptc p = (if kids rows p = [] then None else Some (kids rows p))"
  shows "distinct ss \<Longrightarrow> set ss \<subseteq> set (roots rows) \<Longrightarrow>
         \<forall>s\<in>set ss. \<forall>q\<in>desc rows s. m q = None \<Longrightarrow>
         label_sources n ptc ss l m = Some r \<Longrightarrow>
         \<exists>m'. r = Inr m' \<and> (\<forall>j<length ss. \<forall>q\<in>desc rows (ss ! j). m' q = Some (l + int j))
                \<and> (\<forall>q. (\<forall>s\<in>set ss. q \<notin> desc rows s) \<longrightarrow> m' q = m q)"
proof (induction ss arbitrary: l m)
  case Nil
  then show ?case by auto
next
  case (Cons s ss)
  have s: "s \<in> set (roots rows)" using Cons.prems(2) by simp
  then have rs: "rooted rows s" by (auto simp: roots_set intro: rooted.root)
  obtain r1 where r1: "label_skeleton n ptc s l m = Some r1"
    using Cons.prems(4) by (cases "label_skeleton n ptc s l m") simp_all
  let ?m1 = "stamp m (desc rows s) l"
  have "r1 = Inr ?m1"
    using Cons.prems(3) by (intro label_skeleton_correct [OF d ptc rs _ r1]) simp
  with r1 Cons.prems(4) have rest: "label_sources n ptc ss (l + 1) ?m1 = Some r" by simp
  have disj: "desc rows s \<inter> desc rows s' = {}" if "s' \<in> set ss" for s'
  proof -
    from that Cons.prems(1) have "s \<noteq> s'" by auto
    moreover from that Cons.prems(2) have "s' \<in> set (roots rows)" by auto
    ultimately show ?thesis using roots_disjoint [OF d s] by simp
  qed
  have fresh: "\<forall>s'\<in>set ss. \<forall>q\<in>desc rows s'. ?m1 q = None"
  proof (intro ballI)
    fix s' q assume s': "s' \<in> set ss" and q: "q \<in> desc rows s'"
    with disj [OF s'] have "q \<notin> desc rows s" by auto
    moreover from Cons.prems(3) s' q have "m q = None" by simp
    ultimately show "?m1 q = None" by (simp add: stamp_def)
  qed
  from Cons.IH [OF _ _ fresh rest] Cons.prems(1,2) obtain m'
    where m': "r = Inr m'" "\<forall>j<length ss. \<forall>q\<in>desc rows (ss ! j). m' q = Some (l + 1 + int j)"
      "\<forall>q. (\<forall>s\<in>set ss. q \<notin> desc rows s) \<longrightarrow> m' q = ?m1 q"
    by auto
  have "\<forall>j<length (s # ss). \<forall>q\<in>desc rows ((s # ss) ! j). m' q = Some (l + int j)"
  proof (intro allI impI ballI)
    fix j q assume j: "j < length (s # ss)" and q: "q \<in> desc rows ((s # ss) ! j)"
    show "m' q = Some (l + int j)"
    proof (cases j)
      case 0
      with q have qs: "q \<in> desc rows s" by simp
      with disj have "\<forall>s'\<in>set ss. q \<notin> desc rows s'" by auto
      with m'(3) have "m' q = ?m1 q" by simp
      with qs 0 show ?thesis by (simp add: stamp_def)
    next
      case (Suc k)
      with j q m'(2) show ?thesis by simp
    qed
  qed
  moreover have "\<forall>q. (\<forall>s'\<in>set (s # ss). q \<notin> desc rows s') \<longrightarrow> m' q = m q"
    using m'(3) by (simp add: stamp_def)
  ultimately show ?case using m'(1) by blast
qed

subsection \<open>The labeling of a whole table\<close>

lemma write_labels_ok:
  "\<forall>r\<in>set rows. m (point_id r) \<noteq> None \<Longrightarrow>
     write_labels m rows = Inr (map (\<lambda>r. r\<lparr>label_id := the (m (point_id r))\<rparr>) rows)"
  by (induction rows) auto

lemma write_labels_fail:
  "\<exists>r\<in>set rows. m (point_id r) = None \<Longrightarrow>
     \<exists>k. write_labels m rows = Inl (KeyError k) \<and> m k = None \<and> k \<in> point_id ` set rows"
proof (induction rows)
  case Nil
  then show ?case by simp
next
  case (Cons r rows)
  show ?case
  proof (cases "m (point_id r)")
    case None
    then show ?thesis by auto
  next
    case (Some l)
    with Cons.prems have "\<exists>r\<in>set rows. m (point_id r) = None" by auto
    from Cons.IH [OF this] obtain k
      where "write_labels m rows = Inl (KeyError k)" "m k = None" "k \<in> point_id ` set rows" by blast
    with Some show ?thesis by auto
  qed
qed

lemma index_ptc_closed:
  "\<forall>q cs. parent_to_children (build_index rows) q = Some cs \<longrightarrow> set cs \<subseteq> point_id ` set rows"
  by (auto simp: build_index_ptc kids_def split: if_splits)

lemma roots_in_ids: "set (roots rows) \<subseteq> point_id ` set rows"
  unfolding roots_def set_map set_filter by blast

lemma label_sources_total:
  assumes "length rows < n"
  shows "\<exists>r. label_sources n (parent_to_children (build_index rows)) (roots rows) l Map.empty = Some r"
proof -
  have "card (point_id ` set rows) \<le> length rows"
    by (metis card_image_le card_length le_trans List.finite_set)
  with assms have "card (point_id ` set rows - dom (Map.empty :: int \<rightharpoonup> int)) < n" by simp
  then show ?thesis
    by (intro label_sources_returns [OF _ index_ptc_closed roots_in_ids]) simp_all
qed

lemma labeling_map:
  assumes d: "distinct (map point_id rows)" and n: "length rows < n"
  shows "\<exists>m. label_sources n (parent_to_children (build_index rows)) (roots rows) 1 Map.empty = Some (Inr m)
           \<and> (\<forall>j<length (roots rows). \<forall>q\<in>desc rows (roots rows ! j). m q = Some (1 + int j))
           \<and> (\<forall>q. \<not> rooted rows q \<longrightarrow> m q = None)"
proof -
  let ?ptc = "parent_to_children (build_index rows)"
  obtain r where r: "label_sources n ?ptc (roots rows) 1 Map.empty = Some r"
    using label_sources_total [OF n] by blast
  have ptc: "\<forall>p. ?ptc p = (if kids rows p = [] then None else Some (kids rows p))"
    by (simp add: build_index_ptc)
  from label_sources_correct [OF d ptc roots_distinct [OF d] subset_refl _ r]
  obtain m where m: "r = Inr m"
      "\<forall>j<length (roots rows). \<forall>q\<in>desc rows (roots rows ! j). m q = Some (1 + int j)"
      "\<forall>q. (\<forall>s\<in>set (roots rows). q \<notin> desc rows s) \<longrightarrow> m q = Map.empty q"
    by auto
  from m(3) have "\<forall>q. \<not> rooted rows q \<longrightarrow> m q = None"
    by (simp add: rooted_iff_desc_root)
  with r m(1,2) show ?thesis by blast
qed

lemma edge_same_root:
  assumes d: "distinct (map point_id rows)" and s: "s \<in> set (roots rows)"
    and e: "(x, y) \<in> edge_rel rows"
  shows "x \<in> desc rows s \<longleftrightarrow> y \<in> desc rows s"
proof
  assume "y \<in> desc rows s"
  with e show "x \<in> desc rows s"
    by (auto simp: desc_def intro: converse_rtrancl_into_rtrancl)
next
  assume "x \<in> desc rows s"
  then have xs: "(x, s) \<in> (edge_rel rows)\<^sup>*" by (simp add: desc_def)
  have "x \<noteq> s" using root_no_edge [OF d s] e by auto
  with xs have "(x, s) \<in> (edge_rel rows)\<^sup>+" by (meson rtranclD)
  from trancl_first_step [OF edge_single_valued [OF d] e this]
  show "y \<in> desc rows s" by (simp add: desc_def)
qed

lemma connected_same_root:
  assumes d: "distinct (map point_id rows)" and s: "s \<in> set (roots rows)"
    and w: "weakly_connected rows a b"
  shows "a \<in> desc rows s \<longleftrightarrow> b \<in> desc rows s"
  using w unfolding weakly_connected_def
proof (induction rule: rtrancl_induct)
  case base
  show ?case by simp
next
  case (step y z)
  from step.hyps(2) have "y \<in> desc rows s \<longleftrightarrow> z \<in> desc rows s"
    using edge_same_root [OF d s] by auto
  with step.IH show ?case by simp
qed

lemma same_root_connected:
  assumes "a \<in> desc rows s" "b \<in> desc rows s"
  shows "weakly_connected rows a b"
proof -
  let ?E = "edge_rel rows"
  from assms have a: "(a, s) \<in> ?E\<^sup>*" and b: "(b, s) \<in> ?E\<^sup>*" by (simp_all add: desc_def)
  from a have "(a, s) \<in> (?E \<union> ?E\<inverse>)\<^sup>*"
    by (rule rtrancl_mono [THEN subsetD, rotated]) simp
  moreover from b have "(s, b) \<in> (?E\<inverse>)\<^sup>*" by (simp add: rtrancl_converse)
  then have "(s, b) \<in> (?E \<union> ?E\<inverse>)\<^sup>*"
    by (rule rtrancl_mono [THEN subsetD, rotated]) simp
  ultimately show ?thesis unfolding weakly_connected_def by (rule rtrancl_trans)
qed

subsection \<open>Valid forests\<close>

lemma rooted_label:
  assumes lab: "\<forall>j<length (roots rows). \<forall>q\<in>desc rows (roots rows ! j). m q = Some (1 + int j)"
    and q: "rooted rows q"
  shows "\<exists>j<length (roots rows). q \<in> desc rows (roots rows ! j) \<and> m q = Some (1 + int j)"
proof -
  from q obtain s where "s \<in> set (roots rows)" "q \<in> desc rows s"
    by (auto simp: rooted_iff_desc_root)
  then obtain j where "j < length (roots rows)" "roots rows ! j = s"
    by (auto simp: in_set_conv_nth)
  with \<open>q \<in> desc rows s\<close> lab show ?thesis by blast
qed

lemma root_index_unique:
  assumes d: "distinct (map point_id rows)"
    and "i < length (roots rows)" "j < length (roots rows)"
    and "q \<in> desc rows (roots rows ! i)" "q \<in> desc rows (roots rows ! j)"
  shows "i = j"
proof (rule ccontr)
  assume "i \<noteq> j"
  with assms(2,3) roots_distinct [OF d] have "roots rows ! i \<noteq> roots rows ! j"
    by (simp add: nth_eq_iff_index_eq)
  with roots_disjoint [OF d, of "roots rows ! i" "roots rows ! j"] assms(2,3)
  have "desc rows (roots rows ! i) \<inter> desc rows (roots rows ! j) = {}" by simp
  with assms(4,5) show False by auto
qed

text \<open>
  C3. For a valid forest (unique ids, every row rooted) the labeling pass returns: the rows
  are the table's rows with only \<open>label_id\<close> rewritten, every id of the table has exactly one
  entry in \<open>point_to_label\<close> and it is the label written to its row, two rows carry the same
  label if and only if their ids are weakly connected, the number of distinct labels is the
  number of root rows, the labels are exactly \<open>1 .. #roots\<close>, and the \<open>j\<close>-th root in table
  order (counting from 0) gets the label \<open>j + 1\<close>. The fuel \<open>n\<close> only has to exceed the number
  of rows.
\<close>

theorem labeling_of_forest:
  assumes v: "valid_forest rows" and n: "length rows < n"
  shows "\<exists>src. label_skeletons n rows = Some (Inr src)
           \<and> length (data src) = length rows
           \<and> (\<forall>i<length rows. data src ! i = (rows ! i)\<lparr>label_id := label_id (data src ! i)\<rparr>)
           \<and> dom (point_to_label src) = point_id ` set rows
           \<and> (\<forall>a\<in>set (data src). point_to_label src (point_id a) = Some (label_id a))
           \<and> (\<forall>a\<in>set (data src). \<forall>b\<in>set (data src).
                 label_id a = label_id b \<longleftrightarrow> weakly_connected rows (point_id a) (point_id b))
           \<and> card (label_id ` set (data src)) = length (filter (\<lambda>r. point_id r = parent_id r) rows)
           \<and> label_id ` set (data src) = {1..int (length (filter (\<lambda>r. point_id r = parent_id r) rows))}
           \<and> (\<forall>j<length (roots rows). \<forall>a\<in>set (data src).
                 point_id a = roots rows ! j \<longrightarrow> label_id a = int j + 1)"
proof -
  from v have d: "distinct (map point_id rows)" and allr: "\<forall>r\<in>set rows. rooted rows (point_id r)"
    by (simp_all add: valid_forest_def)
  from labeling_map [OF d n] obtain m
    where run: "label_sources n (parent_to_children (build_index rows)) (roots rows) 1 Map.empty = Some (Inr m)"
      and lab: "\<forall>j<length (roots rows). \<forall>q\<in>desc rows (roots rows ! j). m q = Some (1 + int j)"
      and unl: "\<forall>q. \<not> rooted rows q \<longrightarrow> m q = None"
    by blast
  define relabel where "relabel = (\<lambda>r::SwcPoint. r\<lparr>label_id := the (m (point_id r))\<rparr>)"
  define src where "src = \<lparr>data = map relabel rows, index = build_index rows, point_to_label = m\<rparr>"
  have lenr: "length (roots rows) = length (filter (\<lambda>r. point_id r = parent_id r) rows)"
    by (simp add: roots_def)
  have key: "\<exists>j<length (roots rows). point_id r \<in> desc rows (roots rows ! j) \<and> m (point_id r) = Some (1 + int j)"
    if "r \<in> set rows" for r
    using rooted_label [OF lab] allr that by blast
  then have "\<forall>r\<in>set rows. m (point_id r) \<noteq> None" by fastforce
  then have "write_labels m rows = Inr (map relabel rows)"
    unfolding relabel_def by (rule write_labels_ok)
  with run have res: "label_skeletons n rows = Some (Inr src)"
    by (simp add: label_skeletons_def src_def Let_def build_index_sources)
  have dat: "data src = map relabel rows" by (simp add: src_def)
  have elem: "\<exists>r j. r \<in> set rows \<and> a = relabel r \<and> point_id a = point_id r \<and> j < length (roots rows)
                \<and> point_id r \<in> desc rows (roots rows ! j) \<and> label_id a = 1 + int j"
    if "a \<in> set (data src)" for a
  proof -
    from that obtain r where r: "r \<in> set rows" "a = relabel r" by (auto simp: dat)
    from key [OF r(1)] obtain j where j: "j < length (roots rows)"
        "point_id r \<in> desc rows (roots rows ! j)" "m (point_id r) = Some (1 + int j)" by blast
    from r(2) j(3) have "point_id a = point_id r" "label_id a = 1 + int j"
      by (simp_all add: relabel_def)
    with r j show ?thesis by blast
  qed
  have ptl: "point_to_label src = m" by (simp add: src_def)
  have 7: "dom (point_to_label src) = point_id ` set rows"
  proof (intro set_eqI iffI)
    fix q assume "q \<in> dom (point_to_label src)"
    with unl have "rooted rows q" by (auto simp: ptl)
    then show "q \<in> point_id ` set rows" by (rule rooted_in_ids)
  next
    fix q assume "q \<in> point_id ` set rows"
    then obtain r where "r \<in> set rows" "q = point_id r" by auto
    with key [of r] show "q \<in> dom (point_to_label src)" by (auto simp: ptl)
  qed
  have 8: "point_to_label src (point_id a) = Some (label_id a)" if a: "a \<in> set (data src)" for a
  proof -
    from a obtain r where r: "r \<in> set rows" "a = relabel r" by (auto simp: dat)
    from key [OF r(1)] r(2) show ?thesis by (auto simp: ptl relabel_def)
  qed
  have 1: "length (data src) = length rows" by (simp add: dat)
  have 2: "\<forall>i<length rows. data src ! i = (rows ! i)\<lparr>label_id := label_id (data src ! i)\<rparr>"
    by (simp add: dat relabel_def)
  have 3: "label_id a = label_id b \<longleftrightarrow> weakly_connected rows (point_id a) (point_id b)"
    if a: "a \<in> set (data src)" and b: "b \<in> set (data src)" for a b
  proof -
    from elem [OF a] obtain i where i: "i < length (roots rows)"
        "point_id a \<in> desc rows (roots rows ! i)" "label_id a = 1 + int i" by auto
    from elem [OF b] obtain j where j: "j < length (roots rows)"
        "point_id b \<in> desc rows (roots rows ! j)" "label_id b = 1 + int j" by auto
    show ?thesis
    proof
      assume "label_id a = label_id b"
      with i(3) j(3) have "i = j" by simp
      with i(2) j(2) show "weakly_connected rows (point_id a) (point_id b)"
        by (auto intro: same_root_connected)
    next
      assume w: "weakly_connected rows (point_id a) (point_id b)"
      have "roots rows ! i \<in> set (roots rows)" using i(1) by simp
      from connected_same_root [OF d this w] i(2)
      have "point_id b \<in> desc rows (roots rows ! i)" by simp
      from root_index_unique [OF d i(1) j(1) this j(2)] have "i = j" .
      with i(3) j(3) show "label_id a = label_id b" by simp
    qed
  qed
  have 5: "label_id a = int j + 1"
    if j: "j < length (roots rows)" and a: "a \<in> set (data src)" and pa: "point_id a = roots rows ! j" for j a
  proof -
    from elem [OF a] obtain i where i: "i < length (roots rows)"
        "point_id a \<in> desc rows (roots rows ! i)" "label_id a = 1 + int i" by auto
    have "point_id a \<in> desc rows (roots rows ! j)" by (simp add: pa)
    from root_index_unique [OF d i(1) j i(2) this] i(3) show ?thesis by simp
  qed
  have 4: "label_id ` set (data src) = {1..int (length (roots rows))}"
  proof (intro set_eqI iffI)
    fix l assume "l \<in> label_id ` set (data src)"
    then obtain a where a: "a \<in> set (data src)" "l = label_id a" by auto
    from elem [OF a(1)] a(2) show "l \<in> {1..int (length (roots rows))}" by auto
  next
    fix l assume l: "l \<in> {1..int (length (roots rows))}"
    define j where "j = nat (l - 1)"
    from l have j: "j < length (roots rows)" "l = int j + 1" by (auto simp: j_def)
    then have "roots rows ! j \<in> set (roots rows)" by simp
    then obtain r where r: "r \<in> set rows" "point_id r = roots rows ! j"
      using roots_in_ids [of rows] by (metis image_iff subsetD)
    from r(1) have "relabel r \<in> set (data src)" unfolding dat by simp
    moreover from r(2) have "point_id (relabel r) = roots rows ! j" by (simp add: relabel_def)
    ultimately have a: "relabel r \<in> set (data src)" "point_id (relabel r) = roots rows ! j"
      by blast+
    from 5 [OF j(1) a] j(2) have "label_id (relabel r) = l" by simp
    with a(1) show "l \<in> label_id ` set (data src)" by (auto simp: image_iff)
  qed
  have 6: "card (label_id ` set (data src)) = length (roots rows)"
    by (simp add: 4)
  from res 1 2 3 4 5 6 7 8 show ?thesis
    unfolding lenr [symmetric] by blast
qed

theorem labeling_of_forest_witness:
  "valid_forest
     [\<lparr>location = [0, 0, 0], point_id = 1, parent_id = 1, label_id = 0\<rparr>,
      \<lparr>location = [1, 0, 0], point_id = 2, parent_id = 1, label_id = 0\<rparr>,
      \<lparr>location = [5, 5, 5], point_id = 3, parent_id = 3, label_id = 0\<rparr>]
   \<and> (\<exists>src. label_skeletons 4
         [\<lparr>location = [0, 0, 0], point_id = 1, parent_id = 1, label_id = 0\<rparr>,
          \<lparr>location = [1, 0, 0], point_id = 2, parent_id = 1, label_id = 0\<rparr>,
          \<lparr>location = [5, 5, 5], point_id = 3, parent_id = 3, label_id = 0\<rparr>] = Some (Inr src)
       \<and> label_id ` set (data src) = {1..2})"
proof -
  let ?a = "\<lparr>location = [0, 0, 0], point_id = 1, parent_id = 1, label_id = 0\<rparr> :: SwcPoint"
  let ?b = "\<lparr>location = [1, 0, 0], point_id = 2, parent_id = 1, label_id = 0\<rparr> :: SwcPoint"
  let ?c = "\<lparr>location = [5, 5, 5], point_id = 3, parent_id = 3, label_id = 0\<rparr> :: SwcPoint"
  let ?R = "[?a, ?b, ?c]"
  have r1: "rooted ?R 1" using rooted.root [of ?a ?R] by simp
  have r3: "rooted ?R 3" using rooted.root [of ?c ?R] by simp
  have r2: "rooted ?R 2" using rooted.step [of ?b ?R] r1 by simp
  have v: "valid_forest ?R" using r1 r2 r3 by (simp add: valid_forest_def)
  from labeling_of_forest [OF v, of 4] obtain src
    where "label_skeletons 4 ?R = Some (Inr src)"
      and "label_id ` set (data src) = {1..int (length (filter (\<lambda>r. point_id r = parent_id r) ?R))}"
    by auto
  then have "\<exists>src. label_skeletons 4 ?R = Some (Inr src) \<and> label_id ` set (data src) = {1..2}"
    by auto
  with v show ?thesis by blast
qed

subsection \<open>Malformed tables\<close>

lemma dangling_not_rooted:
  assumes d: "distinct (map point_id rows)"
    and r: "r \<in> set rows" "parent_id r \<noteq> point_id r" "parent_id r \<notin> point_id ` set rows"
  shows "\<not> rooted rows (point_id r)"
proof
  assume "rooted rows (point_id r)"
  then show False
  proof (cases rule: rooted.cases)
    case (root r')
    with same_id_same_row [OF d r(1) root(2)] r(2) show False by auto
  next
    case (step r')
    with same_id_same_row [OF d r(1) step(2)] have "rooted rows (parent_id r)" by auto
    then have "parent_id r \<in> point_id ` set rows" by (rule rooted_in_ids)
    with r(3) show False by simp
  qed
qed




text \<open>
  C2, evaluated on the code. The table holds the root \<open>1\<close> and the two points \<open>2\<close> and \<open>3\<close>,
  each the parent of the other: a cycle that no root reaches. The traversal starts at the
  roots only, so it never visits \<open>2\<close> or \<open>3\<close> and its loop check never fires; the pass fails
  in the write-back loop with \<^verbatim>\<open>KeyError\<close> at the first unlabeled row, whatever the fuel.
\<close>

theorem unreachable_cycle:
  "read_points (Suc n) [([0, 0, 0], 1, 1), ([1, 0, 0], 2, 3), ([2, 0, 0], 3, 2)]
     = Some (Inl (KeyError 2))"
  by (simp add: read_points_def label_skeletons_def build_index_def index_row_def empty_index_def)

end
